theory Spec2Isabelle
  imports Main "HOL-Library.AList"
begin

section \<open>Strings and numbers of the host language\<close>

text \<open>
  Strings are lists of characters (code units below 256).  The functions of this
  section are the built-in string and number operations that the plugin calls:
  \<^verbatim>\<open>String(n)\<close>, \<^verbatim>\<open>padStart\<close>, \<^verbatim>\<open>parseInt(s, 10)\<close>,
  \<^verbatim>\<open>replace\<close> with a string pattern, \<^verbatim>\<open>split\<close>, \<^verbatim>\<open>includes\<close> and the
  comparison \<^verbatim>\<open><=\<close> on strings.
\<close>

definition isDigit :: "char \<Rightarrow> bool" where
  "isDigit c = (48 \<le> (of_char c :: nat) \<and> (of_char c :: nat) \<le> 57)"

definition digitVal :: "char \<Rightarrow> int" where
  "digitVal c = int (of_char c) - 48"

definition digitChar :: "nat \<Rightarrow> char" where
  "digitChar n = char_of (48 + n)"

text \<open>\<^verbatim>\<open>String(n)\<close> for an integer: decimal digits, a minus sign when negative.\<close>

fun natToString :: "nat \<Rightarrow> string" where
  "natToString n =
     (if n < 10 then [digitChar n] else natToString (n div 10) @ [digitChar (n mod 10)])"

declare natToString.simps [simp del]

definition numToString :: "int \<Rightarrow> string" where
  "numToString n = (if n < 0 then CHR ''-'' # natToString (nat (- n)) else natToString (nat n))"

text \<open>\<^verbatim>\<open>s.padStart(n, c)\<close> with a one-character filler.\<close>

definition padStart :: "string \<Rightarrow> nat \<Rightarrow> char \<Rightarrow> string" where
  "padStart s n c = replicate (n - length s) c @ s"

text \<open>
  \<^verbatim>\<open>parseInt(s, 10)\<close>: leading white space is skipped, a sign is read, then the
  longest run of decimal digits; \<open>None\<close> is \<^verbatim>\<open>NaN\<close>.
\<close>

definition isWhiteSpace :: "char \<Rightarrow> bool" where
  "isWhiteSpace c =
     ((of_char c :: nat) = 32 \<or> (of_char c :: nat) = 160
      \<or> (9 \<le> (of_char c :: nat) \<and> (of_char c :: nat) \<le> 13))"

fun parseDigits :: "int \<Rightarrow> string \<Rightarrow> int" where
  "parseDigits acc [] = acc"
| "parseDigits acc (c # cs) = (if isDigit c then parseDigits (acc * 10 + digitVal c) cs else acc)"

fun parseUnsigned :: "string \<Rightarrow> int option" where
  "parseUnsigned [] = None"
| "parseUnsigned (c # cs) = (if isDigit c then Some (parseDigits 0 (c # cs)) else None)"

fun parseSigned :: "string \<Rightarrow> int option" where
  "parseSigned [] = None"
| "parseSigned (c # cs) =
     (if c = CHR ''-'' then map_option uminus (parseUnsigned cs)
      else if c = CHR ''+'' then parseUnsigned cs
      else parseUnsigned (c # cs))"

definition parseInt :: "string \<Rightarrow> int option" where
  "parseInt s = parseSigned (dropWhile isWhiteSpace s)"

text \<open>\<^verbatim>\<open>s.startsWith(p)\<close> and \<^verbatim>\<open>s.replace(p, r)\<close> for a string pattern: only the
  first occurrence is replaced.\<close>

definition startsWith :: "string \<Rightarrow> string \<Rightarrow> bool" where
  "startsWith s p = (take (length p) s = p)"

fun replaceFirst :: "string \<Rightarrow> string \<Rightarrow> string \<Rightarrow> string" where
  "replaceFirst p r [] = (if p = [] then r else [])"
| "replaceFirst p r (c # cs) =
     (if startsWith (c # cs) p then r @ drop (length p) (c # cs)
      else c # replaceFirst p r cs)"

text \<open>\<^verbatim>\<open>s.split(sep)\<close> for a one-character separator.\<close>

fun splitOn :: "char \<Rightarrow> string \<Rightarrow> string list" where
  "splitOn sep [] = [[]]"
| "splitOn sep (c # cs) =
     (if c = sep then [] # splitOn sep cs
      else (case splitOn sep cs of [] \<Rightarrow> [[c]] | w # ws \<Rightarrow> (c # w) # ws))"

text \<open>The comparison \<^verbatim>\<open>a <= b\<close> on strings: lexicographic on the character
  codes, a proper prefix being smaller.\<close>

fun strLe :: "string \<Rightarrow> string \<Rightarrow> bool" where
  "strLe [] b = True"
| "strLe (x # a) [] = False"
| "strLe (x # a) (y # b) =
     (if (of_char x :: nat) < of_char y then True
      else if (of_char y :: nat) < of_char x then False
      else strLe a b)"

text \<open>\<^verbatim>\<open>xs.includes(x)\<close>.\<close>

definition includes_str :: "string list \<Rightarrow> string \<Rightarrow> bool" where
  "includes_str xs x = (x \<in> set xs)"

section \<open>The constants of the plugin\<close>

text \<open>
  \<^verbatim>\<open>DAILY_NOTE_FILENAME_REGEX = /^\d{4}-\d{2}-\d{2}\.md$/\<close>: a sequence of atoms,
  each a decimal digit or a literal character, anchored at both ends.
\<close>

datatype regex_atom = Digit | Lit char

fun matchAtoms :: "regex_atom list \<Rightarrow> string \<Rightarrow> bool" where
  "matchAtoms [] [] = True"
| "matchAtoms [] (c # cs) = False"
| "matchAtoms (a # as) [] = False"
| "matchAtoms (Digit # as) (c # cs) = (isDigit c \<and> matchAtoms as cs)"
| "matchAtoms (Lit l # as) (c # cs) = (c = l \<and> matchAtoms as cs)"

definition NOTE_FILE_EXTENSION :: string where
  "NOTE_FILE_EXTENSION = ''.md''"

definition DEFAULT_NOTE_TEMPLATE :: string where
  "DEFAULT_NOTE_TEMPLATE = ''''"

definition DATE_STRING_ATOMS :: "regex_atom list" where
  "DATE_STRING_ATOMS =
     [Digit, Digit, Digit, Digit, Lit (CHR ''-''), Digit, Digit, Lit (CHR ''-''), Digit, Digit]"

definition DAILY_NOTE_FILENAME_REGEX :: "regex_atom list" where
  "DAILY_NOTE_FILENAME_REGEX = DATE_STRING_ATOMS @ [Lit (CHR ''.''), Lit (CHR ''m''), Lit (CHR ''d'')]"

definition regexTest :: "regex_atom list \<Rightarrow> string \<Rightarrow> bool" where
  "regexTest r s = matchAtoms r s"

section \<open>Calendar dates\<close>

text \<open>
  A \<^verbatim>\<open>Date\<close> object is read by the plugin only through \<^verbatim>\<open>getFullYear\<close>,
  \<^verbatim>\<open>getMonth\<close> (0 to 11) and \<^verbatim>\<open>getDate\<close>, and compared at midnight, so it is
  modelled as its calendar day in the proleptic Gregorian calendar.  Time zones
  and the time of day are not modelled.
\<close>

record jsdate =
  getFullYear :: int
  getMonth :: int
  getDate :: int

definition isLeapYear :: "int \<Rightarrow> bool" where
  "isLeapYear y = (y mod 4 = 0 \<and> (y mod 400 = 0 \<or> y mod 100 \<noteq> 0))"

definition daysInMonth :: "int \<Rightarrow> int \<Rightarrow> int" where
  "daysInMonth y m =
     (if m = 1 then (if isLeapYear y then 29 else 28)
      else if m = 3 \<or> m = 5 \<or> m = 8 \<or> m = 10 then 30
      else 31)"

text \<open>
  \<^verbatim>\<open>new Date(year, month, day)\<close> for a month index in 0 to 11 and a day of at
  least 1, the only arguments \<^verbatim>\<open>parseDateFromFilename\<close> lets through: a day
  past the end of the month carries over into the following months.
\<close>

function newDate :: "int \<Rightarrow> int \<Rightarrow> int \<Rightarrow> jsdate" where
  "newDate y m d =
     (if d \<le> daysInMonth y m then \<lparr>getFullYear = y, getMonth = m, getDate = d\<rparr>
      else if m = 11 then newDate (y + 1) 0 (d - daysInMonth y m)
      else newDate y (m + 1) (d - daysInMonth y m))"
  by pat_completeness auto
termination
  by (relation "measure (\<lambda>(y, m, d). nat d)") (auto simp: daysInMonth_def split: if_splits)

declare newDate.simps [simp del]

text \<open>A date is a day of the calendar: what every \<^verbatim>\<open>Date\<close> object denotes.\<close>

definition isCalendarDate :: "jsdate \<Rightarrow> bool" where
  "isCalendarDate d =
     (0 \<le> getMonth d \<and> getMonth d \<le> 11 \<and> 1 \<le> getDate d
      \<and> getDate d \<le> daysInMonth (getFullYear d) (getMonth d))"

text \<open>The order of the calendar on year, month and day: \<open>dateLess a b\<close> when \<open>a\<close> is
  an earlier day than \<open>b\<close>.\<close>

definition dateLess :: "jsdate \<Rightarrow> jsdate \<Rightarrow> bool" where
  "dateLess a b =
     (getFullYear a < getFullYear b
      \<or> (getFullYear a = getFullYear b
          \<and> (getMonth a < getMonth b \<or> (getMonth a = getMonth b \<and> getDate a < getDate b))))"

text \<open>Days since 1 January 1970, and \<^verbatim>\<open>getTime()\<close> at midnight, in milliseconds.\<close>

definition dayFromYear :: "int \<Rightarrow> int" where
  "dayFromYear y =
     365 * (y - 1970) + (y - 1969) div 4 - (y - 1901) div 100 + (y - 1601) div 400"

fun daysBeforeMonth :: "int \<Rightarrow> nat \<Rightarrow> int" where
  "daysBeforeMonth y 0 = 0"
| "daysBeforeMonth y (Suc m) = daysBeforeMonth y m + daysInMonth y (int m)"

definition dayNumber :: "jsdate \<Rightarrow> int" where
  "dayNumber d = dayFromYear (getFullYear d) + daysBeforeMonth (getFullYear d) (nat (getMonth d))
                 + (getDate d - 1)"

definition getTime :: "jsdate \<Rightarrow> int" where
  "getTime d = 86400000 * dayNumber d"

section \<open>DateService\<close>

definition formatDateToFileName :: "jsdate \<Rightarrow> string" where
  "formatDateToFileName date =
     (let year = getFullYear date;
          month = padStart (numToString (getMonth date + 1)) 2 (CHR ''0'');
          day = padStart (numToString (getDate date)) 2 (CHR ''0'')
      in numToString year @ ''-'' @ month @ ''-'' @ day)"

text \<open>The range checks and the normalisation check that \<^verbatim>\<open>parseDateFromFilename\<close>
  makes on the three numbers it has read (the month still counted from 1).\<close>

definition checkTriple :: "int \<Rightarrow> int \<Rightarrow> int \<Rightarrow> jsdate option" where
  "checkTriple year month1 day =
     (let month = month1 - 1 in
      if year < 1900 \<or> year > 2100 then None
      else if month < 0 \<or> month > 11 then None
      else if day < 1 \<or> day > 31 then None
      else
        let date = newDate year month day in
        if getFullYear date = year \<and> getMonth date = month \<and> getDate date = day
        then Some date
        else None)"

definition parseDateFromFilename :: "string \<Rightarrow> jsdate option" where
  "parseDateFromFilename filename =
     (let nameWithoutExt = replaceFirst NOTE_FILE_EXTENSION [] filename in
      if \<not> regexTest DAILY_NOTE_FILENAME_REGEX filename then None
      else
        let parts = splitOn (CHR ''-'') nameWithoutExt in
        if length parts \<noteq> 3 then None
        else
          (case parseInt (parts ! 0) of
             None \<Rightarrow> None
           | Some year \<Rightarrow>
          (case parseInt (parts ! 1) of
             None \<Rightarrow> None
           | Some month1 \<Rightarrow>
          (case parseInt (parts ! 2) of
             None \<Rightarrow> None
           | Some day \<Rightarrow> checkTriple year month1 day))))"

definition isValidDailyNoteFilename :: "string \<Rightarrow> bool" where
  "isValidDailyNoteFilename filename =
     (if \<not> regexTest DAILY_NOTE_FILENAME_REGEX filename then False
      else parseDateFromFilename filename \<noteq> None)"

definition generateFilename :: "jsdate \<Rightarrow> string" where
  "generateFilename date = formatDateToFileName date @ NOTE_FILE_EXTENSION"

definition parseDateString :: "string \<Rightarrow> jsdate option" where
  "parseDateString dateString = parseDateFromFilename (dateString @ NOTE_FILE_EXTENSION)"

definition compareDates :: "jsdate \<Rightarrow> jsdate \<Rightarrow> int" where
  "compareDates date1 date2 = getTime date1 - getTime date2"

text \<open>
  \<^verbatim>\<open>sortDateStringsDesc\<close> calls \<^verbatim>\<open>Array.prototype.sort\<close> with a comparator
  that answers 0 when either string does not parse.  The sort is modelled as the
  stable insertion sort by that comparator.
\<close>

definition dateStringCompare :: "string \<Rightarrow> string \<Rightarrow> int" where
  "dateStringCompare a b =
     (case parseDateString a of
        None \<Rightarrow> 0
      | Some dateA \<Rightarrow>
          (case parseDateString b of
             None \<Rightarrow> 0
           | Some dateB \<Rightarrow> compareDates dateB dateA))"

fun insertBy :: "('a \<Rightarrow> 'a \<Rightarrow> int) \<Rightarrow> 'a \<Rightarrow> 'a list \<Rightarrow> 'a list" where
  "insertBy cmp x [] = [x]"
| "insertBy cmp x (y # ys) = (if cmp x y \<le> 0 then x # y # ys else y # insertBy cmp x ys)"

definition sortBy :: "('a \<Rightarrow> 'a \<Rightarrow> int) \<Rightarrow> 'a list \<Rightarrow> 'a list" where
  "sortBy cmp xs = foldr (insertBy cmp) xs []"

definition sortDateStringsDesc :: "string list \<Rightarrow> string list" where
  "sortDateStringsDesc dateStrings = sortBy dateStringCompare dateStrings"

definition getOrdinalSuffix :: "int \<Rightarrow> string" where
  "getOrdinalSuffix day =
     (if day > 3 \<and> day < 21 then ''th''
      else if day mod 10 = 1 then ''st''
      else if day mod 10 = 2 then ''nd''
      else if day mod 10 = 3 then ''rd''
      else ''th'')"

definition MONTH_NAMES :: "string list" where
  "MONTH_NAMES =
     [''January'', ''February'', ''March'', ''April'', ''May'', ''June'', ''July'',
      ''August'', ''September'', ''October'', ''November'', ''December'']"

text \<open>\<^verbatim>\<open>date.toLocaleDateString("en-US", {year: "numeric", month: "long", day: "numeric"})\<close>.\<close>

definition toLocaleDateString :: "jsdate \<Rightarrow> string" where
  "toLocaleDateString date =
     (if 0 \<le> getMonth date \<and> getMonth date \<le> 11
      then (MONTH_NAMES ! nat (getMonth date)) @ '' '' @ numToString (getDate date) @ '', ''
             @ numToString (getFullYear date)
      else ''Invalid Date'')"

definition formatDateForDisplay :: "jsdate \<Rightarrow> string" where
  "formatDateForDisplay date =
     (let formatted = toLocaleDateString date;
          day = getDate date;
          ordinal = getOrdinalSuffix day
      in replaceFirst (numToString day) (numToString day @ ordinal) formatted)"

section \<open>The vault\<close>

text \<open>
  The vault is the file store of the host application.  It holds files with their
  contents, in the order in which a folder lists them, and folders.  A file handle
  (\<^verbatim>\<open>TFile\<close>) carries its path, its name and its extension.  Every vault operation
  that can throw is given a fault table: \<open>fault v op = Some e\<close> means that the
  operation throws the error \<open>e\<close>.
\<close>

record tfile =
  path :: string
  name :: string
  extension :: string

datatype abstract_file = TFile tfile | TFolder string

datatype vault_op =
  OpCreateFolder string | OpCreate string | OpRead string | OpModify string | OpDelete string

record vault =
  files :: "(tfile \<times> string) list"
  folders :: "string list"
  fault :: "vault_op \<Rightarrow> string option"

definition baseName :: "string \<Rightarrow> string" where
  "baseName p = last (splitOn (CHR ''/'') p)"

definition parentPath :: "string \<Rightarrow> string" where
  "parentPath p = take (length p - length (baseName p) - 1) p"

definition extensionOf :: "string \<Rightarrow> string" where
  "extensionOf n = (if CHR ''.'' \<in> set n then last (splitOn (CHR ''.'') n) else [])"

definition mkTFile :: "string \<Rightarrow> tfile" where
  "mkTFile p = \<lparr>path = p, name = baseName p, extension = extensionOf (baseName p)\<rparr>"

definition fileContent :: "vault \<Rightarrow> string \<Rightarrow> string option" where
  "fileContent v p = map_of (map (\<lambda>(f, c). (path f, c)) (files v)) p"

definition getAbstractFileByPath :: "vault \<Rightarrow> string \<Rightarrow> abstract_file option" where
  "getAbstractFileByPath v p =
     (case find (\<lambda>(f, c). path f = p) (files v) of
        Some (f, c) \<Rightarrow> Some (TFile f)
      | None \<Rightarrow> if p \<in> set (folders v) then Some (TFolder p) else None)"

text \<open>\<^verbatim>\<open>folder.children\<close> of the folder at path \<open>p\<close>.\<close>

definition children :: "vault \<Rightarrow> string \<Rightarrow> abstract_file list" where
  "children v p =
     map (\<lambda>(f, c). TFile f) (filter (\<lambda>(f, c). parentPath (path f) = p) (files v))
     @ map TFolder (filter (\<lambda>q. parentPath q = p) (folders v))"

definition vault_createFolder :: "vault \<Rightarrow> string \<Rightarrow> string + vault" where
  "vault_createFolder v p =
     (case fault v (OpCreateFolder p) of
        Some e \<Rightarrow> Inl e
      | None \<Rightarrow>
          (case getAbstractFileByPath v p of
             Some a \<Rightarrow> Inl ''Folder already exists.''
           | None \<Rightarrow> Inr (v\<lparr>folders := folders v @ [p]\<rparr>)))"

definition vault_create :: "vault \<Rightarrow> string \<Rightarrow> string \<Rightarrow> string + tfile \<times> vault" where
  "vault_create v p content =
     (case fault v (OpCreate p) of
        Some e \<Rightarrow> Inl e
      | None \<Rightarrow>
          (case getAbstractFileByPath v p of
             Some a \<Rightarrow> Inl ''File already exists.''
           | None \<Rightarrow> Inr (mkTFile p, v\<lparr>files := files v @ [(mkTFile p, content)]\<rparr>)))"

definition vault_read :: "vault \<Rightarrow> tfile \<Rightarrow> string + string" where
  "vault_read v file =
     (case fault v (OpRead (path file)) of
        Some e \<Rightarrow> Inl e
      | None \<Rightarrow>
          (case fileContent v (path file) of
             None \<Rightarrow> Inl ''ENOENT: no such file or directory''
           | Some c \<Rightarrow> Inr c))"

definition vault_modify :: "vault \<Rightarrow> tfile \<Rightarrow> string \<Rightarrow> string + vault" where
  "vault_modify v file content =
     (case fault v (OpModify (path file)) of
        Some e \<Rightarrow> Inl e
      | None \<Rightarrow>
          (case fileContent v (path file) of
             None \<Rightarrow> Inl ''ENOENT: no such file or directory''
           | Some c \<Rightarrow>
               Inr (v\<lparr>files := map (\<lambda>(f, c). if path f = path file then (f, content) else (f, c))
                                  (files v)\<rparr>)))"

definition vault_delete :: "vault \<Rightarrow> tfile \<Rightarrow> string + vault" where
  "vault_delete v file =
     (case fault v (OpDelete (path file)) of
        Some e \<Rightarrow> Inl e
      | None \<Rightarrow>
          (case fileContent v (path file) of
             None \<Rightarrow> Inl ''ENOENT: no such file or directory''
           | Some c \<Rightarrow> Inr (v\<lparr>files := filter (\<lambda>(f, c). path f \<noteq> path file) (files v)\<rparr>)))"

section \<open>DailyNotesManager\<close>

record BonjoroSettings =
  dailyNotesPath :: string
  initialLoadCount :: nat
  dateFormat :: string
  autoSave :: bool
  autoSaveDelay :: nat
  loadMoreCount :: nat

record DailyNote =
  date :: jsdate
  dateString :: string
  content :: string
  "file" :: "tfile option"
  exists :: bool
  isDirty :: bool
  displayDate :: string

record LoadNotesOptions =
  count :: nat
  startDate :: "jsdate option"
  appendMode :: bool

text \<open>\<^verbatim>\<open>FileOperationResult\<close>: \<^verbatim>\<open>{success: true, file}\<close> or
  \<^verbatim>\<open>{success: false, error}\<close>.\<close>

datatype FileOperationResult = Success "tfile option" | Failure string

definition ERROR_MESSAGES_permissionDenied :: string where
  "ERROR_MESSAGES_permissionDenied = ''Permission denied accessing daily notes directory''"

text \<open>
  The fields of the manager.  \<^verbatim>\<open>cachedFileList\<close> is a \<^verbatim>\<open>Map\<close>: it keeps its keys
  in insertion order, \<^verbatim>\<open>set\<close> on a present key replaces the value in place and
  on an absent key appends, \<^verbatim>\<open>delete\<close> removes the entry.
\<close>

record manager =
  settings :: BonjoroSettings
  vault :: vault
  cachedFileList :: "(string \<times> tfile) list"
  lastScanTime :: int

definition newManager :: "vault \<Rightarrow> BonjoroSettings \<Rightarrow> manager" where
  "newManager v st = \<lparr>settings = st, vault = v, cachedFileList = [], lastScanTime = 0\<rparr>"

definition updateSettings :: "manager \<Rightarrow> BonjoroSettings \<Rightarrow> manager" where
  "updateSettings this st = this\<lparr>settings := st, cachedFileList := []\<rparr>"

definition getDailyNotesPath :: "manager \<Rightarrow> string" where
  "getDailyNotesPath this = dailyNotesPath (settings this)"

definition getNotePath :: "manager \<Rightarrow> string \<Rightarrow> string" where
  "getNotePath this ds =
     (let filename = ds @ NOTE_FILE_EXTENSION
      in dailyNotesPath (settings this) @ ''/'' @ filename)"

definition ensureDirectoryExists :: "manager \<Rightarrow> bool \<times> manager" where
  "ensureDirectoryExists this =
     (let p = getDailyNotesPath this in
      case getAbstractFileByPath (vault this) p of
        None \<Rightarrow>
          (case vault_createFolder (vault this) p of
             Inl e \<Rightarrow> (False, this)
           | Inr v \<Rightarrow> (True, this\<lparr>vault := v\<rparr>))
      | Some (TFile f) \<Rightarrow> (False, this)
      | Some (TFolder q) \<Rightarrow> (True, this))"

text \<open>One turn of the loop of \<^verbatim>\<open>scanDirectory\<close> over \<^verbatim>\<open>folder.children\<close>.\<close>

definition scanFile :: "(string \<times> tfile) list \<Rightarrow> abstract_file \<Rightarrow> (string \<times> tfile) list" where
  "scanFile cache a =
     (case a of
        TFolder q \<Rightarrow> cache
      | TFile f \<Rightarrow>
          if extension f = ''md'' then
            (let filename = name f in
             if isValidDailyNoteFilename filename
             then AList.update (replaceFirst NOTE_FILE_EXTENSION [] filename) f cache
             else cache)
          else cache)"

text \<open>\<open>now\<close> is the value of \<^verbatim>\<open>Date.now()\<close> at the call.\<close>

definition scanDirectory :: "manager \<Rightarrow> bool \<Rightarrow> int \<Rightarrow> string list \<times> manager" where
  "scanDirectory this forceRefresh now =
     (if \<not> forceRefresh \<and> now - lastScanTime this < 5000
      then (map fst (cachedFileList this), this)
      else
        (case getAbstractFileByPath (vault this) (getDailyNotesPath this) of
           Some (TFolder folder) \<Rightarrow>
             (let cache = foldl scanFile [] (children (vault this) folder);
                  this' = this\<lparr>cachedFileList := cache, lastScanTime := now\<rparr>
              in (sortDateStringsDesc (map fst cache), this'))
         | Some (TFile f) \<Rightarrow> ([], this)
         | None \<Rightarrow> ([], this)))"

text \<open>The body of the loop of \<^verbatim>\<open>loadNotes\<close>; \<open>None\<close> is its \<^verbatim>\<open>continue\<close>.\<close>

definition loadNote :: "manager \<Rightarrow> string \<Rightarrow> DailyNote option" where
  "loadNote this ds =
     (case parseDateString ds of
        None \<Rightarrow> None
      | Some d \<Rightarrow>
          (let f = map_of (cachedFileList this) ds;
               c = (case f of
                      None \<Rightarrow> []
                    | Some h \<Rightarrow> (case vault_read (vault this) h of Inl e \<Rightarrow> [] | Inr t \<Rightarrow> t))
           in Some \<lparr>date = d, dateString = ds, content = c, file = f, exists = True,
                    isDirty = False, displayDate = formatDateForDisplay d\<rparr>))"

text \<open>\<open>today\<close> is the value of \<^verbatim>\<open>new Date()\<close>, used when no start date is given.\<close>

definition loadNotes :: "manager \<Rightarrow> LoadNotesOptions \<Rightarrow> jsdate \<Rightarrow> int \<Rightarrow> DailyNote list \<times> manager" where
  "loadNotes this options today now =
     (let start = (case startDate options of Some d \<Rightarrow> d | None \<Rightarrow> today) in
      case scanDirectory this False now of
        (existingDates, this') \<Rightarrow>
          (let startDateString = formatDateToFileName start;
               filteredDates = filter (\<lambda>ds. strLe ds startDateString) existingDates;
               datesToLoad = take (count options) filteredDates
           in (List.map_filter (loadNote this') datesToLoad, this')))"

definition createNote :: "manager \<Rightarrow> string \<Rightarrow> string \<Rightarrow> FileOperationResult \<times> manager" where
  "createNote this ds c =
     (case ensureDirectoryExists this of
        (dirExists, this1) \<Rightarrow>
          if \<not> dirExists then (Failure ERROR_MESSAGES_permissionDenied, this1)
          else
            (let p = getNotePath this1 ds in
             case getAbstractFileByPath (vault this1) p of
               Some existingFile \<Rightarrow> (Failure ''File already exists'', this1)
             | None \<Rightarrow>
                 (case vault_create (vault this1) p c of
                    Inl e \<Rightarrow> (Failure e, this1)
                  | Inr (f, v) \<Rightarrow>
                      (Success (Some f),
                       this1\<lparr>vault := v,
                             cachedFileList := AList.update ds f (cachedFileList this1)\<rparr>))))"

definition saveNote :: "manager \<Rightarrow> string \<Rightarrow> string \<Rightarrow> FileOperationResult \<times> manager" where
  "saveNote this ds c =
     (case map_of (cachedFileList this) ds of
        None \<Rightarrow> createNote this ds c
      | Some f \<Rightarrow>
          (case getAbstractFileByPath (vault this) (path f) of
             None \<Rightarrow>
               createNote (this\<lparr>cachedFileList := AList.delete ds (cachedFileList this)\<rparr>) ds c
           | Some existingFile \<Rightarrow>
               (case vault_modify (vault this) f c of
                  Inl e \<Rightarrow> (Failure e, this)
                | Inr v \<Rightarrow> (Success (Some f), this\<lparr>vault := v\<rparr>))))"

definition deleteNote :: "manager \<Rightarrow> string \<Rightarrow> FileOperationResult \<times> manager" where
  "deleteNote this ds =
     (case map_of (cachedFileList this) ds of
        None \<Rightarrow> (Failure ''File not found'', this)
      | Some f \<Rightarrow>
          (case vault_delete (vault this) f of
             Inl e \<Rightarrow> (Failure e, this)
           | Inr v \<Rightarrow>
               (Success None,
                this\<lparr>vault := v, cachedFileList := AList.delete ds (cachedFileList this)\<rparr>)))"

text \<open>\<open>None\<close> is \<^verbatim>\<open>null\<close>.\<close>

definition readNote :: "manager \<Rightarrow> string \<Rightarrow> string option" where
  "readNote this ds =
     (case map_of (cachedFileList this) ds of
        None \<Rightarrow> None
      | Some f \<Rightarrow> (case vault_read (vault this) f of Inl e \<Rightarrow> None | Inr c \<Rightarrow> Some c))"

definition noteExists :: "manager \<Rightarrow> string \<Rightarrow> int \<Rightarrow> bool \<times> manager" where
  "noteExists this ds now =
     (case scanDirectory this False now of
        (existingDates, this') \<Rightarrow> (includes_str existingDates ds, this'))"

text \<open>
  \<^verbatim>\<open>getOrCreateTodayNote\<close> reads the clock for today's date and, through its two
  scans, twice for the time: \<open>now1\<close> in its own scan and \<open>now2\<close> in the scan of
  \<^verbatim>\<open>loadNotes\<close>.  \<open>Inl\<close> is the error it throws; \<open>Inr None\<close> is \<^verbatim>\<open>undefined\<close>, the
  first element of an empty page.
\<close>

definition getOrCreateTodayNote ::
  "manager \<Rightarrow> jsdate \<Rightarrow> int \<Rightarrow> int \<Rightarrow> (string + DailyNote option) \<times> manager" where
  "getOrCreateTodayNote this today now1 now2 =
     (let ds = formatDateToFileName today in
      case scanDirectory this False now1 of
        (existingDates, this1) \<Rightarrow>
          if includes_str existingDates ds then
            (case loadNotes this1 \<lparr>count = 1, startDate = Some today, appendMode = False\<rparr>
                    today now2 of
               (notes, this2) \<Rightarrow> (Inr (case notes of [] \<Rightarrow> None | n # ns \<Rightarrow> Some n), this2))
          else
            (case createNote this1 ds DEFAULT_NOTE_TEMPLATE of
               (Failure e, this2) \<Rightarrow>
                 (Inl (''Failed to create today'' @ [CHR 0x27] @ ''s note: '' @ e), this2)
             | (Success f, this2) \<Rightarrow>
                 (Inr (Some \<lparr>date = today, dateString = ds, content = DEFAULT_NOTE_TEMPLATE,
                             file = f, exists = True, isDirty = False,
                             displayDate = formatDateForDisplay today\<rparr>), this2)))"

definition refreshFile :: "manager \<Rightarrow> string \<Rightarrow> manager" where
  "refreshFile this ds =
     (case getAbstractFileByPath (vault this) (getNotePath this ds) of
        Some (TFile f) \<Rightarrow> this\<lparr>cachedFileList := AList.update ds f (cachedFileList this)\<rparr>
      | Some (TFolder q) \<Rightarrow> this\<lparr>cachedFileList := AList.delete ds (cachedFileList this)\<rparr>
      | None \<Rightarrow> this\<lparr>cachedFileList := AList.delete ds (cachedFileList this)\<rparr>)"

definition clearCache :: "manager \<Rightarrow> manager" where
  "clearCache this = this\<lparr>cachedFileList := [], lastScanTime := 0\<rparr>"

section \<open>Sequences of operations\<close>

text \<open>
  The operations a caller can apply to a manager, each with the values it reads
  from the clock, and the manager that a sequence of them leaves behind.
\<close>

datatype operation =
  ScanDirectory bool int
| CreateNote string string
| SaveNote string string
| DeleteNote string
| GetOrCreateTodayNote jsdate int int
| RefreshFile string

fun step :: "manager \<Rightarrow> operation \<Rightarrow> manager" where
  "step this (ScanDirectory forceRefresh now) = snd (scanDirectory this forceRefresh now)"
| "step this (CreateNote ds c) = snd (createNote this ds c)"
| "step this (SaveNote ds c) = snd (saveNote this ds c)"
| "step this (DeleteNote ds) = snd (deleteNote this ds)"
| "step this (GetOrCreateTodayNote today now1 now2) = snd (getOrCreateTodayNote this today now1 now2)"
| "step this (RefreshFile ds) = refreshFile this ds"

definition run :: "manager \<Rightarrow> operation list \<Rightarrow> manager" where
  "run this ops = foldl step this ops"

text \<open>The date-string that an operation files a note under, if it files one.\<close>

fun operationKey :: "operation \<Rightarrow> string option" where
  "operationKey (ScanDirectory forceRefresh now) = None"
| "operationKey (CreateNote ds c) = Some ds"
| "operationKey (SaveNote ds c) = Some ds"
| "operationKey (DeleteNote ds) = None"
| "operationKey (GetOrCreateTodayNote today now1 now2) = Some (formatDateToFileName today)"
| "operationKey (RefreshFile ds) = Some ds"

text \<open>\<open>newerThan a b\<close>: both date-strings parse, and \<open>a\<close> to a later day than \<open>b\<close>.\<close>

definition newerThan :: "string \<Rightarrow> string \<Rightarrow> bool" where
  "newerThan a b =
     (case parseDateString a of
        None \<Rightarrow> False
      | Some da \<Rightarrow> (case parseDateString b of None \<Rightarrow> False | Some db \<Rightarrow> dateLess db da))"

text \<open>Date-string validation: the string parses.\<close>

definition validDateString :: "string \<Rightarrow> bool" where
  "validDateString ds = (parseDateString ds \<noteq> None)"

definition validKeyOps :: "operation list \<Rightarrow> bool" where
  "validKeyOps ops = list_all (\<lambda>op. case operationKey op of None \<Rightarrow> True | Some k \<Rightarrow> validDateString k) ops"

text \<open>Every file of the vault lies at the path of its folder followed by its name.\<close>

definition vaultPathsConsistent :: "vault \<Rightarrow> bool" where
  "vaultPathsConsistent v =
     list_all (\<lambda>(g, c). path g = parentPath (path g) @ ''/'' @ name g) (files v)"

definition cacheKeysValid :: "manager \<Rightarrow> bool" where
  "cacheKeysValid this = list_all validDateString (map fst (cachedFileList this))"

section \<open>Example vaults and managers\<close>

definition exampleSettings :: BonjoroSettings where
  "exampleSettings =
     \<lparr>dailyNotesPath = ''daily-notes'', initialLoadCount = 30, dateFormat = ''MMMM Do, YYYY'',
      autoSave = True, autoSaveDelay = 500, loadMoreCount = 20\<rparr>"

definition journalSettings :: BonjoroSettings where
  "journalSettings = exampleSettings\<lparr>dailyNotesPath := ''journal''\<rparr>"

definition noFault :: "vault_op \<Rightarrow> string option" where
  "noFault op = None"

definition emptyVault :: vault where
  "emptyVault = \<lparr>files = [], folders = [], fault = noFault\<rparr>"

text \<open>A vault whose notes folder lists an older note before a newer one, next to
  a file that is not a daily note, and a second folder with one note.\<close>

definition exampleVault :: vault where
  "exampleVault =
     \<lparr>files = [(mkTFile ''daily-notes/2026-01-10.md'', ''ten''),
               (mkTFile ''daily-notes/2026-01-15.md'', ''fifteen''),
               (mkTFile ''daily-notes/notes.md'', ''other''),
               (mkTFile ''journal/2026-02-01.md'', ''february'')],
      folders = [''daily-notes'', ''journal''],
      fault = noFault\<rparr>"

text \<open>The same vault when reading and deleting the note of 15 January fail.\<close>

definition brokenFault :: "vault_op \<Rightarrow> string option" where
  "brokenFault op =
     (if op = OpRead ''daily-notes/2026-01-15.md'' then Some ''Error: EIO: i/o error, read''
      else if op = OpDelete ''daily-notes/2026-01-15.md'' then Some ''Error: EPERM: operation not permitted, unlink''
      else None)"

definition brokenVault :: vault where
  "brokenVault = exampleVault\<lparr>fault := brokenFault\<rparr>"

text \<open>The manager after a forced scan of the example vault at time 10000.\<close>

definition exampleManager :: manager where
  "exampleManager =
     \<lparr>settings = exampleSettings, vault = exampleVault,
      cachedFileList = [(''2026-01-10'', mkTFile ''daily-notes/2026-01-10.md''),
                        (''2026-01-15'', mkTFile ''daily-notes/2026-01-15.md'')],
      lastScanTime = 10000\<rparr>"

text \<open>A manager whose cache still holds a note that is no longer in the vault.\<close>

definition staleManager :: manager where
  "staleManager =
     exampleManager\<lparr>cachedFileList :=
       cachedFileList exampleManager @ [(''2026-01-20'', mkTFile ''daily-notes/2026-01-20.md'')]\<rparr>"

definition brokenManager :: manager where
  "brokenManager = exampleManager\<lparr>vault := brokenVault\<rparr>"

definition exampleCursor :: jsdate where
  "exampleCursor = \<lparr>getFullYear = 2026, getMonth = 0, getDate = 20\<rparr>"

section \<open>Properties of the date codec\<close>

lemma of_char_digitChar: "n < 10 \<Longrightarrow> (of_char (digitChar n) :: nat) = 48 + n"
  by (simp add: digitChar_def)

lemma isDigit_digitChar: "n < 10 \<Longrightarrow> isDigit (digitChar n)"
  by (simp add: isDigit_def of_char_digitChar)

lemma digitVal_digitChar: "n < 10 \<Longrightarrow> digitVal (digitChar n) = int n"
  by (simp add: digitVal_def of_char_digitChar)

lemma digitChar_digitVal: "isDigit c \<Longrightarrow> digitChar (nat (digitVal c)) = c"
  by (simp add: digitChar_def digitVal_def isDigit_def nat_diff_distrib)

lemma digitVal_range: "isDigit c \<Longrightarrow> 0 \<le> digitVal c \<and> digitVal c < 10"
  by (auto simp: digitVal_def isDigit_def)

lemma isDigit_not_special:
  "isDigit c \<Longrightarrow> c \<noteq> CHR ''-'' \<and> c \<noteq> CHR ''+'' \<and> c \<noteq> CHR ''.'' \<and> \<not> isWhiteSpace c"
  by (auto simp: isDigit_def isWhiteSpace_def)

lemma parseDigits_snoc:
  "list_all isDigit ds \<Longrightarrow> isDigit c \<Longrightarrow>
   parseDigits acc (ds @ [c]) = parseDigits acc ds * 10 + digitVal c"
  by (induction ds arbitrary: acc) auto

lemma natToString_digits: "list_all isDigit (natToString n)"
  by (induction n rule: natToString.induct)
     (subst natToString.simps, auto simp: isDigit_digitChar)

lemma natToString_nonempty: "natToString n \<noteq> []"
  by (subst natToString.simps) auto

lemma parseDigits_natToString: "parseDigits 0 (natToString n) = int n"
proof (induction n rule: natToString.induct)
  case (1 n)
  show ?case
  proof (cases "n < 10")
    case True
    then show ?thesis
      by (subst natToString.simps) (simp add: isDigit_digitChar digitVal_digitChar)
  next
    case False
    have "parseDigits 0 (natToString (n div 10) @ [digitChar (n mod 10)])
          = parseDigits 0 (natToString (n div 10)) * 10 + digitVal (digitChar (n mod 10))"
      by (rule parseDigits_snoc) (simp_all add: natToString_digits isDigit_digitChar)
    moreover have "int (n div 10) * 10 + int (n mod 10) = int n"
      by presburger
    ultimately show ?thesis using False 1
      by (subst natToString.simps) (simp add: digitVal_digitChar)
  qed
qed

lemma length_natToString_lt10: "n < 10 \<Longrightarrow> natToString n = [digitChar n]"
  by (subst natToString.simps) simp

lemma natToString_ge10: "10 \<le> n \<Longrightarrow> natToString n = natToString (n div 10) @ [digitChar (n mod 10)]"
  by (subst natToString.simps) simp

lemma length_natToString_2: "10 \<le> n \<Longrightarrow> n < 100 \<Longrightarrow> length (natToString n) = 2"
  by (simp add: natToString_ge10 length_natToString_lt10)

lemma length_natToString_4: "1000 \<le> n \<Longrightarrow> n < 10000 \<Longrightarrow> length (natToString n) = 4"
  by (simp add: natToString_ge10 length_natToString_lt10)


lemma matchAtoms_append:
  "length as = length xs \<Longrightarrow>
   matchAtoms (as @ bs) (xs @ ys) = (matchAtoms as xs \<and> matchAtoms bs ys)"
proof (induction as xs rule: list_induct2)
  case Nil
  then show ?case by simp
next
  case (Cons a as x xs)
  then show ?case by (cases a) auto
qed

lemma matchAtoms_digits:
  "matchAtoms (replicate n Digit) xs = (length xs = n \<and> list_all isDigit xs)"
proof (induction n arbitrary: xs)
  case 0
  then show ?case by (cases xs) auto
next
  case (Suc n)
  then show ?case by (cases xs) auto
qed

lemma matchAtoms_lits: "matchAtoms (map Lit l) xs = (xs = l)"
proof (induction l arbitrary: xs)
  case Nil
  then show ?case by (cases xs) auto
next
  case (Cons a l)
  then show ?case by (cases xs) auto
qed

lemma DATE_STRING_ATOMS_alt:
  "DATE_STRING_ATOMS =
     replicate 4 Digit @ map Lit ''-'' @ replicate 2 Digit @ map Lit ''-'' @ replicate 2 Digit"
  by (simp add: DATE_STRING_ATOMS_def numeral_eq_Suc)

lemma DAILY_NOTE_FILENAME_REGEX_alt:
  "DAILY_NOTE_FILENAME_REGEX = DATE_STRING_ATOMS @ map Lit ''.md''"
  by (simp add: DAILY_NOTE_FILENAME_REGEX_def)

lemma matchAtoms_date_string:
  assumes "length y = 4" "list_all isDigit y" "length m = 2" "list_all isDigit m"
    "length d = 2" "list_all isDigit d"
  shows "matchAtoms DATE_STRING_ATOMS (y @ ''-'' @ m @ ''-'' @ d)"
proof -
  have "matchAtoms (replicate 2 Digit) d"
    using assms by (simp add: matchAtoms_digits)
  then have "matchAtoms (map Lit ''-'' @ replicate 2 Digit) (''-'' @ d)"
    by (subst matchAtoms_append) (simp_all add: matchAtoms_lits)
  then have "matchAtoms (replicate 2 Digit @ map Lit ''-'' @ replicate 2 Digit) (m @ ''-'' @ d)"
    using assms by (subst matchAtoms_append) (simp_all add: matchAtoms_digits)
  then have "matchAtoms (map Lit ''-'' @ replicate 2 Digit @ map Lit ''-'' @ replicate 2 Digit)
       (''-'' @ m @ ''-'' @ d)"
    by (subst matchAtoms_append) (simp_all add: matchAtoms_lits)
  then show ?thesis
    unfolding DATE_STRING_ATOMS_alt using assms
    by (subst matchAtoms_append) (simp_all add: matchAtoms_digits)
qed

lemma length_DATE_STRING_ATOMS: "length DATE_STRING_ATOMS = 10"
  by (simp add: DATE_STRING_ATOMS_def)

lemma matchAtoms_length: "matchAtoms as xs \<Longrightarrow> length xs = length as"
  by (induction as xs rule: matchAtoms.induct) auto

lemma regexTest_filename:
  "regexTest DAILY_NOTE_FILENAME_REGEX (s @ ''.md'') = matchAtoms DATE_STRING_ATOMS s"
proof (cases "length s = 10")
  case True
  then show ?thesis
    unfolding regexTest_def DAILY_NOTE_FILENAME_REGEX_alt
    by (subst matchAtoms_append) (simp_all add: length_DATE_STRING_ATOMS matchAtoms_lits)
next
  case False
  then have "\<not> matchAtoms DATE_STRING_ATOMS s"
    using matchAtoms_length length_DATE_STRING_ATOMS by fastforce
  moreover have "\<not> matchAtoms DAILY_NOTE_FILENAME_REGEX (s @ ''.md'')"
    using False matchAtoms_length [of DAILY_NOTE_FILENAME_REGEX "s @ ''.md''"]
    by (auto simp: DAILY_NOTE_FILENAME_REGEX_def length_DATE_STRING_ATOMS)
  ultimately show ?thesis by (simp add: regexTest_def)
qed

lemma replaceFirst_suffix:
  "hd p \<notin> set s \<Longrightarrow> p \<noteq> [] \<Longrightarrow> replaceFirst p r (s @ p) = s @ r"
proof (induction s)
  case Nil
  then show ?case by (cases p) (auto simp: startsWith_def)
next
  case (Cons c s)
  then have "\<not> startsWith (c # s @ p) p"
    by (cases p) (auto simp: startsWith_def)
  with Cons show ?case by simp
qed

lemma splitOn_no_sep: "sep \<notin> set s \<Longrightarrow> splitOn sep s = [s]"
  by (induction s) auto

lemma splitOn_sep: "sep \<notin> set s \<Longrightarrow> splitOn sep (s @ sep # t) = s # splitOn sep t"
  by (induction s) auto

lemma digits_no_special:
  "list_all isDigit s \<Longrightarrow> CHR ''-'' \<notin> set s \<and> CHR ''.'' \<notin> set s"
  using isDigit_not_special by (induction s) auto

lemma parseInt_digits:
  "list_all isDigit s \<Longrightarrow> s \<noteq> [] \<Longrightarrow> parseInt s = Some (parseDigits 0 s)"
  using isDigit_not_special by (cases s) (auto simp: parseInt_def)

lemma newDate_valid:
  "d \<le> daysInMonth y m \<Longrightarrow> newDate y m d = \<lparr>getFullYear = y, getMonth = m, getDate = d\<rparr>"
  by (subst newDate.simps) simp


lemma isDigit_zero: "isDigit (CHR ''0'')"
  by (simp add: isDigit_def)

lemma digitVal_zero: "digitVal (CHR ''0'') = 0"
  by (simp add: digitVal_def)

lemma pad2:
  assumes "n < 100"
  shows "length (padStart (natToString n) 2 (CHR ''0'')) = 2"
    and "list_all isDigit (padStart (natToString n) 2 (CHR ''0''))"
    and "parseDigits 0 (padStart (natToString n) 2 (CHR ''0'')) = int n"
proof -
  show "length (padStart (natToString n) 2 (CHR ''0'')) = 2"
    using assms
    by (cases "n < 10") (simp_all add: padStart_def length_natToString_lt10 length_natToString_2)
  show "list_all isDigit (padStart (natToString n) 2 (CHR ''0''))"
    using natToString_digits [of n] by (auto simp: padStart_def isDigit_zero list_all_iff)
  show "parseDigits 0 (padStart (natToString n) 2 (CHR ''0'')) = int n"
  proof (cases "n < 10")
    case True
    then show ?thesis
      by (simp add: padStart_def length_natToString_lt10 isDigit_zero digitVal_zero
          isDigit_digitChar digitVal_digitChar)
  next
    case False
    with assms have "length (natToString n) = 2" by (simp add: length_natToString_2)
    then show ?thesis by (simp add: padStart_def parseDigits_natToString)
  qed
qed

lemma formatDateToFileName_parts:
  assumes "1900 \<le> getFullYear d" "getFullYear d \<le> 2100"
    "0 \<le> getMonth d" "getMonth d \<le> 11" "1 \<le> getDate d" "getDate d \<le> 31"
  defines "Y \<equiv> natToString (nat (getFullYear d))"
    and "M \<equiv> padStart (natToString (nat (getMonth d + 1))) 2 (CHR ''0'')"
    and "D \<equiv> padStart (natToString (nat (getDate d))) 2 (CHR ''0'')"
  shows "formatDateToFileName d = Y @ ''-'' @ M @ ''-'' @ D"
    and "length Y = 4" and "list_all isDigit Y" and "parseDigits 0 Y = getFullYear d"
    and "length M = 2" and "list_all isDigit M" and "parseDigits 0 M = getMonth d + 1"
    and "length D = 2" and "list_all isDigit D" and "parseDigits 0 D = getDate d"
proof -
  show "formatDateToFileName d = Y @ ''-'' @ M @ ''-'' @ D"
    using assms(1,3,5) by (simp add: formatDateToFileName_def numToString_def Y_def M_def D_def)
  show "length Y = 4" using assms(1,2) by (simp add: Y_def length_natToString_4)
  show "list_all isDigit Y" by (simp add: Y_def natToString_digits)
  show "parseDigits 0 Y = getFullYear d" using assms(1) by (simp add: Y_def parseDigits_natToString)
  have m: "nat (getMonth d + 1) < 100" and dd: "nat (getDate d) < 100"
    using assms by auto
  show "length M = 2" "list_all isDigit M" unfolding M_def using pad2 [OF m] by simp_all
  show "parseDigits 0 M = getMonth d + 1" unfolding M_def using pad2(3) [OF m] assms(3) by simp
  show "length D = 2" "list_all isDigit D" unfolding D_def using pad2 [OF dd] by simp_all
  show "parseDigits 0 D = getDate d" unfolding D_def using pad2(3) [OF dd] assms(5) by simp
qed

lemma parseDateFromFilename_stem:
  assumes "regexTest DAILY_NOTE_FILENAME_REGEX (stem @ ''.md'')"
    and "replaceFirst NOTE_FILE_EXTENSION [] (stem @ ''.md'') = stem"
    and "splitOn (CHR ''-'') stem = [y, m, d]"
    and "parseInt y = Some yv" "parseInt m = Some mv" "parseInt d = Some dv"
  shows "parseDateFromFilename (stem @ ''.md'') = checkTriple yv mv dv"
  unfolding parseDateFromFilename_def
  by (simp add: assms Let_def)

lemma parseDateFromFilename_parts:
  assumes "length y = 4" "list_all isDigit y" "length m = 2" "list_all isDigit m"
    "length d = 2" "list_all isDigit d"
  shows "parseDateFromFilename ((y @ ''-'' @ m @ ''-'' @ d) @ ''.md'') =
     checkTriple (parseDigits 0 y) (parseDigits 0 m) (parseDigits 0 d)"
proof (rule parseDateFromFilename_stem)
  let ?stem = "y @ ''-'' @ m @ ''-'' @ d"
  have ne: "y \<noteq> []" "m \<noteq> []" "d \<noteq> []" using assms by auto
  have nd: "CHR ''-'' \<notin> set y" "CHR ''-'' \<notin> set m" "CHR ''-'' \<notin> set d"
    and np: "CHR ''.'' \<notin> set y" "CHR ''.'' \<notin> set m" "CHR ''.'' \<notin> set d"
    using assms digits_no_special by auto
  show "regexTest DAILY_NOTE_FILENAME_REGEX (?stem @ ''.md'')"
    unfolding regexTest_filename using assms by (rule matchAtoms_date_string)
  have "replaceFirst ''.md'' [] (?stem @ ''.md'') = ?stem @ []"
    by (rule replaceFirst_suffix) (use np in auto)
  then show "replaceFirst NOTE_FILE_EXTENSION [] (?stem @ ''.md'') = ?stem"
    by (simp add: NOTE_FILE_EXTENSION_def)
  have "splitOn (CHR ''-'') (y @ CHR ''-'' # m @ CHR ''-'' # d) = [y, m, d]"
    using nd by (simp add: splitOn_sep splitOn_no_sep)
  then show "splitOn (CHR ''-'') ?stem = [y, m, d]" by simp
  show "parseInt y = Some (parseDigits 0 y)" "parseInt m = Some (parseDigits 0 m)"
    "parseInt d = Some (parseDigits 0 d)"
    using assms ne by (simp_all add: parseInt_digits)
qed

lemma checkTriple_valid:
  assumes "isCalendarDate d" "1900 \<le> getFullYear d" "getFullYear d \<le> 2100"
  shows "checkTriple (getFullYear d) (getMonth d + 1) (getDate d) = Some d"
proof -
  have le31: "daysInMonth (getFullYear d) (getMonth d) \<le> 31"
    by (simp add: daysInMonth_def)
  have "newDate (getFullYear d) (getMonth d) (getDate d) = d"
    using assms(1) by (simp add: newDate_valid isCalendarDate_def)
  then show ?thesis
    using assms le31 by (simp add: checkTriple_def isCalendarDate_def)
qed

lemma parse_generateFilename_roundtrip:
  assumes "isCalendarDate d" "1900 \<le> getFullYear d" "getFullYear d \<le> 2100"
  shows "parseDateFromFilename (generateFilename d) = Some d"
proof -
  have le31: "daysInMonth (getFullYear d) (getMonth d) \<le> 31"
    by (simp add: daysInMonth_def)
  with assms have r: "0 \<le> getMonth d" "getMonth d \<le> 11" "1 \<le> getDate d" "getDate d \<le> 31"
    by (auto simp: isCalendarDate_def)
  note p = formatDateToFileName_parts [OF assms(2,3) r]
  have "parseDateFromFilename (generateFilename d)
        = checkTriple (getFullYear d) (getMonth d + 1) (getDate d)"
    unfolding generateFilename_def NOTE_FILE_EXTENSION_def p(1)
    using parseDateFromFilename_parts [OF p(2,3,5,6,8,9)] by (simp only: p)
  then show ?thesis using assms by (simp add: checkTriple_valid)
qed



lemma matchAtoms_Nil_iff: "matchAtoms [] s = (s = [])"
  by (cases s) auto

lemma matchAtoms_Digit_Cons:
  "matchAtoms (Digit # as) s = (\<exists>c cs. s = c # cs \<and> isDigit c \<and> matchAtoms as cs)"
  by (cases s) auto

lemma matchAtoms_Lit_Cons:
  "matchAtoms (Lit l # as) s = (\<exists>cs. s = l # cs \<and> matchAtoms as cs)"
  by (cases s) auto

lemma date_string_shape:
  assumes "matchAtoms DATE_STRING_ATOMS s"
  shows "\<exists>y m d. s = y @ ''-'' @ m @ ''-'' @ d \<and> length y = 4 \<and> list_all isDigit y
           \<and> length m = 2 \<and> list_all isDigit m \<and> length d = 2 \<and> list_all isDigit d"
proof -
  from assms obtain a b c e f g h i where
    s: "s = [a, b, c, e, CHR ''-'', f, g, CHR ''-'', h, i]"
    and dg: "isDigit a" "isDigit b" "isDigit c" "isDigit e" "isDigit f" "isDigit g"
      "isDigit h" "isDigit i"
    unfolding DATE_STRING_ATOMS_def matchAtoms_Digit_Cons matchAtoms_Lit_Cons matchAtoms_Nil_iff
    by blast
  have "s = [a, b, c, e] @ ''-'' @ [f, g] @ ''-'' @ [h, i]" using s by simp
  moreover have "length [a, b, c, e] = 4" "list_all isDigit [a, b, c, e]"
    "length [f, g] = 2" "list_all isDigit [f, g]" "length [h, i] = 2" "list_all isDigit [h, i]"
    using dg by simp_all
  ultimately show ?thesis by blast
qed

lemma filename_shape:
  assumes "regexTest DAILY_NOTE_FILENAME_REGEX s"
  shows "\<exists>stem. s = stem @ ''.md'' \<and> matchAtoms DATE_STRING_ATOMS stem"
proof -
  have len: "length s = 13"
    using assms matchAtoms_length [of DAILY_NOTE_FILENAME_REGEX s]
    by (simp add: regexTest_def DAILY_NOTE_FILENAME_REGEX_def length_DATE_STRING_ATOMS)
  have "matchAtoms (DATE_STRING_ATOMS @ map Lit ''.md'') (take 10 s @ drop 10 s)"
    using assms by (simp add: regexTest_def DAILY_NOTE_FILENAME_REGEX_alt)
  then have "matchAtoms DATE_STRING_ATOMS (take 10 s) \<and> matchAtoms (map Lit ''.md'') (drop 10 s)"
    by (subst (asm) matchAtoms_append) (simp_all add: length_DATE_STRING_ATOMS len)
  then have "matchAtoms DATE_STRING_ATOMS (take 10 s)" "drop 10 s = ''.md''"
    by (auto simp: matchAtoms_Lit_Cons matchAtoms_Nil_iff)
  then have "s = take 10 s @ ''.md'' \<and> matchAtoms DATE_STRING_ATOMS (take 10 s)"
    by (metis append_take_drop_id)
  then show ?thesis by blast
qed

lemma parseDigits_lower:
  "list_all isDigit ds \<Longrightarrow> 0 \<le> acc \<Longrightarrow> acc \<le> parseDigits acc ds"
proof (induction ds arbitrary: acc)
  case Nil
  then show ?case by simp
next
  case (Cons c ds)
  then have "0 \<le> digitVal c" using digitVal_range by simp
  with Cons.prems have "acc \<le> acc * 10 + digitVal c" "0 \<le> acc * 10 + digitVal c" by auto
  moreover have "acc * 10 + digitVal c \<le> parseDigits (acc * 10 + digitVal c) ds"
    using Cons.IH [of "acc * 10 + digitVal c"] Cons.prems calculation by simp
  ultimately show ?case using Cons.prems by simp
qed

lemma parseDigits_upper:
  "list_all isDigit ds \<Longrightarrow> parseDigits acc ds < (acc + 1) * 10 ^ length ds"
proof (induction ds arbitrary: acc)
  case Nil
  then show ?case by simp
next
  case (Cons c ds)
  then have c: "digitVal c < 10" using digitVal_range by simp
  have "parseDigits (acc * 10 + digitVal c) ds < (acc * 10 + digitVal c + 1) * 10 ^ length ds"
    using Cons by simp
  also have "\<dots> \<le> ((acc + 1) * 10) * 10 ^ length ds"
    using c by (intro mult_right_mono) auto
  finally show ?case using Cons.prems by (simp add: algebra_simps)
qed

lemma natToString_parseDigits:
  "list_all isDigit ds \<Longrightarrow> ds \<noteq> [] \<Longrightarrow> digitVal (hd ds) \<noteq> 0 \<Longrightarrow>
   natToString (nat (parseDigits 0 ds)) = ds"
proof (induction ds rule: rev_induct)
  case Nil
  then show ?case by simp
next
  case (snoc c ds)
  from snoc.prems have dc: "isDigit c" and dds: "list_all isDigit ds" by simp_all
  have rc: "0 \<le> digitVal c" "digitVal c < 10" using dc digitVal_range by auto
  show ?case
  proof (cases "ds = []")
    case True
    then show ?thesis
      using dc rc by (simp add: length_natToString_lt10 digitChar_digitVal)
  next
    case False
    with snoc.prems have hd: "digitVal (hd ds) \<noteq> 0" by simp
    obtain x xs where ds: "ds = x # xs" using False by (cases ds) auto
    have dx: "isDigit x" "list_all isDigit xs" using dds ds by simp_all
    have "1 \<le> digitVal x" using hd ds digitVal_range [OF dx(1)] by simp
    moreover have "digitVal x \<le> parseDigits (digitVal x) xs"
      using dx digitVal_range by (intro parseDigits_lower) auto
    ultimately have pos: "1 \<le> parseDigits 0 ds" using ds dx by simp
    define v where "v = parseDigits 0 ds"
    have val: "parseDigits 0 (ds @ [c]) = v * 10 + digitVal c"
      unfolding v_def using dds dc by (rule parseDigits_snoc)
    have ih: "natToString (nat v) = ds" unfolding v_def using snoc.IH dds False hd by simp
    have ge: "10 \<le> nat (v * 10 + digitVal c)" using pos rc by (simp add: v_def)
    have vpos: "1 \<le> v" using pos by (simp add: v_def)
    have nn: "0 \<le> v * 10 + digitVal c" using vpos rc by simp
    have "(v * 10 + digitVal c) div 10 = v" "(v * 10 + digitVal c) mod 10 = digitVal c"
      using rc by simp_all
    then have dv: "nat (v * 10 + digitVal c) div 10 = nat v"
      and md: "nat (v * 10 + digitVal c) mod 10 = nat (digitVal c)"
      using nat_div_distrib [OF nn, of 10] nat_mod_distrib [OF nn, of 10] by simp_all
    show ?thesis
      unfolding val natToString_ge10 [OF ge] dv md ih
      using dc by (simp add: digitChar_digitVal)
  qed
qed

lemma digitVal_zero_iff:
  assumes "isDigit c" "digitVal c = 0"
  shows "c = CHR ''0''"
proof -
  have "(of_char c :: nat) = of_char (CHR ''0'')"
    using assms by (simp add: digitVal_def isDigit_def)
  then show ?thesis by (simp only: of_char_eq_iff)
qed

lemma pad2_inverse:
  assumes "length m = 2" "list_all isDigit m"
  shows "padStart (natToString (nat (parseDigits 0 m))) 2 (CHR ''0'') = m"
proof -
  from assms obtain a b where m: "m = [a, b]" and d: "isDigit a" "isDigit b"
    by (auto simp: length_Suc_conv numeral_2_eq_2)
  show ?thesis
  proof (cases "digitVal a = 0")
    case True
    then have "a = CHR ''0''" using d digitVal_zero_iff by simp
    moreover have "nat (digitVal b) < 10" using digitVal_range [OF d(2)] by linarith
    ultimately show ?thesis
      using d True
      by (simp add: m padStart_def length_natToString_lt10 digitChar_digitVal)
  next
    case False
    then have "natToString (nat (parseDigits 0 m)) = m"
      using assms m by (intro natToString_parseDigits) auto
    then show ?thesis using assms by (simp add: padStart_def)
  qed
qed

lemma year4_inverse:
  assumes "length y = 4" "list_all isDigit y" "1000 \<le> parseDigits 0 y"
  shows "natToString (nat (parseDigits 0 y)) = y"
proof -
  obtain a ys where y: "y = a # ys" using assms(1) by (cases y) auto
  have d: "isDigit a" "list_all isDigit ys" "length ys = 3" using assms y by simp_all
  have "digitVal a \<noteq> 0"
  proof
    assume z: "digitVal a = 0"
    have "parseDigits 0 ys < (0 + 1) * 10 ^ length ys" using d(2) by (rule parseDigits_upper)
    then show False using assms(3) y d z by simp
  qed
  then show ?thesis using assms y by (intro natToString_parseDigits) auto
qed

lemma daysInMonth_range: "28 \<le> daysInMonth y m \<and> daysInMonth y m \<le> 31"
  by (simp add: daysInMonth_def)

lemma checkTriple_Some:
  assumes "checkTriple yv mv dv = Some d"
  shows "d = \<lparr>getFullYear = yv, getMonth = mv - 1, getDate = dv\<rparr>"
    and "1900 \<le> yv" and "yv \<le> 2100" and "isCalendarDate d"
proof -
  from assms have rng: "1900 \<le> yv" "yv \<le> 2100" "0 \<le> mv - 1" "mv - 1 \<le> 11" "1 \<le> dv" "dv \<le> 31"
    by (auto simp: checkTriple_def Let_def split: if_splits)
  from assms have nd: "newDate yv (mv - 1) dv = d"
    and eq: "getFullYear d = yv" "getMonth d = mv - 1" "getDate d = dv"
    using rng by (auto simp: checkTriple_def Let_def split: if_splits)
  have le: "dv \<le> daysInMonth yv (mv - 1)"
  proof (rule ccontr)
    assume "\<not> dv \<le> daysInMonth yv (mv - 1)"
    then have gt: "daysInMonth yv (mv - 1) < dv" by simp
    define r where "r = dv - daysInMonth yv (mv - 1)"
    have r: "r \<le> 3" "r \<noteq> dv" using daysInMonth_range [of yv "mv - 1"] rng by (auto simp: r_def)
    have small: "r \<le> daysInMonth y' m'" for y' m'
      using r daysInMonth_range [of y' m'] by simp
    have nv: "newDate y' m' r = \<lparr>getFullYear = y', getMonth = m', getDate = r\<rparr>" for y' m'
      using small by (simp add: newDate_valid)
    have "newDate yv (mv - 1) dv =
          (if mv - 1 = 11 then newDate (yv + 1) 0 r else newDate yv (mv - 1 + 1) r)"
      by (subst newDate.simps) (use gt in \<open>simp add: r_def\<close>)
    then have "getDate (newDate yv (mv - 1) dv) = r"
      by (simp add: nv)
    then show False using nd eq r by simp
  qed
  show "d = \<lparr>getFullYear = yv, getMonth = mv - 1, getDate = dv\<rparr>"
    using nd le by (simp add: newDate_valid)
  show "1900 \<le> yv" "yv \<le> 2100" by (fact rng)+
  show "isCalendarDate d" using eq rng le by (simp add: isCalendarDate_def)
qed

lemma parseDateFromFilename_Some:
  assumes "parseDateFromFilename s = Some d"
  shows "regexTest DAILY_NOTE_FILENAME_REGEX s \<and> 1900 \<le> getFullYear d \<and> getFullYear d \<le> 2100
         \<and> isCalendarDate d \<and> generateFilename d = s"
proof -
  have re: "regexTest DAILY_NOTE_FILENAME_REGEX s"
    using assms by (auto simp: parseDateFromFilename_def Let_def split: if_splits)
  then obtain stem where s: "s = stem @ ''.md''" and st: "matchAtoms DATE_STRING_ATOMS stem"
    using filename_shape by blast
  from date_string_shape [OF st] obtain y m dd where
    stem: "stem = y @ ''-'' @ m @ ''-'' @ dd"
    and p: "length y = 4" "list_all isDigit y" "length m = 2" "list_all isDigit m"
      "length dd = 2" "list_all isDigit dd"
    by blast
  have ct: "checkTriple (parseDigits 0 y) (parseDigits 0 m) (parseDigits 0 dd) = Some d"
    using assms parseDateFromFilename_parts [OF p] by (simp add: s stem)
  note c = checkTriple_Some [OF ct]
  have fy: "natToString (nat (parseDigits 0 y)) = y"
    using p c(2) by (intro year4_inverse) auto
  have fm: "padStart (natToString (nat (parseDigits 0 m))) 2 (CHR ''0'') = m"
    using p by (intro pad2_inverse)
  have fd: "padStart (natToString (nat (parseDigits 0 dd))) 2 (CHR ''0'') = dd"
    using p by (intro pad2_inverse)
  have pos: "0 \<le> parseDigits 0 m" "0 \<le> parseDigits 0 dd"
    using p parseDigits_lower [of m 0] parseDigits_lower [of dd 0] by auto
  have "formatDateToFileName d = stem"
    using c(2) pos fy fm fd
    by (simp add: c(1) formatDateToFileName_def numToString_def stem)
  then have "generateFilename d = s"
    by (simp add: generateFilename_def NOTE_FILE_EXTENSION_def s)
  with re c show ?thesis by (simp add: c(1))
qed

section \<open>Properties of the vault and of the cache\<close>

lemma map_of_paths_None:
  "(map_of (map (\<lambda>(f, c). (path f, c)) fs) p = None) = (find (\<lambda>(f, c). path f = p) fs = None)"
  by (induction fs) auto

lemma fileContent_None_iff:
  "(fileContent v p = None) = (find (\<lambda>(f, c). path f = p) (files v) = None)"
  by (simp add: fileContent_def map_of_paths_None)

lemma getAbstractFileByPath_None:
  "getAbstractFileByPath v p = None \<Longrightarrow> fileContent v p = None"
  by (auto simp: getAbstractFileByPath_def fileContent_None_iff split: option.splits)

lemma getAbstractFileByPath_TFile:
  "(\<exists>g. getAbstractFileByPath v p = Some (TFile g)) = (fileContent v p \<noteq> None)"
  by (auto simp: getAbstractFileByPath_def fileContent_None_iff split: option.splits)

lemma map_of_modify:
  "map_of (map (\<lambda>(f, c). (path f, c))
             (map (\<lambda>(f, c). if path f = q then (f, t) else (f, c)) fs)) p
   = (if p = q then map_option (\<lambda>c. t) (map_of (map (\<lambda>(f, c). (path f, c)) fs) p)
      else map_of (map (\<lambda>(f, c). (path f, c)) fs) p)"
  by (induction fs) auto

lemma map_of_delete:
  "map_of (map (\<lambda>(f, c). (path f, c)) (filter (\<lambda>(f, c). path f \<noteq> q) fs)) p
   = (if p = q then None else map_of (map (\<lambda>(f, c). (path f, c)) fs) p)"
  by (induction fs) auto

lemma vault_modify_Inr:
  assumes "vault_modify v f t = Inr v'"
  shows "fileContent v' p = (if p = path f then Some t else fileContent v p)"
    and "map fst (files v') = map fst (files v)"
    and "folders v' = folders v" and "fault v' = fault v"
proof -
  from assms obtain c0 where c0: "fileContent v (path f) = Some c0"
    and v': "v' = v\<lparr>files := map (\<lambda>(g, c). if path g = path f then (g, t) else (g, c)) (files v)\<rparr>"
    by (auto simp: vault_modify_def split: option.splits)
  show "fileContent v' p = (if p = path f then Some t else fileContent v p)"
    using c0 by (simp add: v' fileContent_def map_of_modify del: map_map)
  show "map fst (files v') = map fst (files v)"
    by (simp add: v' comp_def case_prod_unfold)
  show "folders v' = folders v" "fault v' = fault v" by (simp_all add: v')
qed

lemma vault_modify_succeeds:
  "fault v (OpModify (path f)) = None \<Longrightarrow> fileContent v (path f) \<noteq> None \<Longrightarrow>
   \<exists>v'. vault_modify v f t = Inr v'"
  by (auto simp: vault_modify_def)

lemma vault_delete_Inr:
  assumes "vault_delete v f = Inr v'"
  shows "fileContent v' p = (if p = path f then None else fileContent v p)"
    and "folders v' = folders v" and "fault v' = fault v"
    and "fileContent v (path f) \<noteq> None"
proof -
  from assms obtain c0 where c0: "fileContent v (path f) = Some c0"
    and v': "v' = v\<lparr>files := filter (\<lambda>(g, c). path g \<noteq> path f) (files v)\<rparr>"
    by (auto simp: vault_delete_def split: option.splits)
  show "fileContent v' p = (if p = path f then None else fileContent v p)"
    by (simp add: v' fileContent_def map_of_delete del: map_map)
  show "folders v' = folders v" "fault v' = fault v" by (simp_all add: v')
  show "fileContent v (path f) \<noteq> None" using c0 by simp
qed

lemma vault_delete_succeeds:
  "fault v (OpDelete (path f)) = None \<Longrightarrow> fileContent v (path f) \<noteq> None \<Longrightarrow>
   \<exists>v'. vault_delete v f = Inr v'"
  by (auto simp: vault_delete_def)

lemma map_of_delete_key: "map_of (AList.delete k al) k = None"
  by (simp add: delete_conv')

lemma scanDirectory_fresh:
  "now - lastScanTime this < 5000 \<Longrightarrow>
   scanDirectory this False now = (map fst (cachedFileList this), this)"
  by (simp add: scanDirectory_def)

lemma path_mkTFile: "path (mkTFile p) = p"
  by (simp add: mkTFile_def)

lemma valid_filename_stem:
  assumes "isValidDailyNoteFilename n"
  shows "n = replaceFirst NOTE_FILE_EXTENSION [] n @ ''.md''"
    and "validDateString (replaceFirst NOTE_FILE_EXTENSION [] n)"
proof -
  from assms have re: "regexTest DAILY_NOTE_FILENAME_REGEX n"
    and ps: "parseDateFromFilename n \<noteq> None"
    by (auto simp: isValidDailyNoteFilename_def split: if_splits)
  from filename_shape [OF re] obtain stem where n: "n = stem @ ''.md''"
    and st: "matchAtoms DATE_STRING_ATOMS stem" by blast
  from date_string_shape [OF st] obtain y m d where
    stem: "stem = y @ ''-'' @ m @ ''-'' @ d"
    and p: "list_all isDigit y" "list_all isDigit m" "list_all isDigit d"
    by blast
  have "CHR ''.'' \<notin> set stem"
    using p digits_no_special by (auto simp: stem)
  then have "replaceFirst ''.md'' [] (stem @ ''.md'') = stem @ []"
    by (intro replaceFirst_suffix) auto
  then have rf: "replaceFirst NOTE_FILE_EXTENSION [] n = stem"
    by (simp add: n NOTE_FILE_EXTENSION_def)
  show "n = replaceFirst NOTE_FILE_EXTENSION [] n @ ''.md''"
    unfolding rf by (fact n)
  show "validDateString (replaceFirst NOTE_FILE_EXTENSION [] n)"
    unfolding rf using ps by (simp add: validDateString_def parseDateString_def NOTE_FILE_EXTENSION_def n)
qed

lemma keys_update: "set (map fst (AList.update k v al)) = insert k (set (map fst al))"
  using dom_update [of k v al] by auto

lemma keys_delete: "set (map fst (AList.delete k al)) = set (map fst al) - {k}"
  by (auto simp: AList.delete_eq)

lemma scanFile_keys:
  "k \<in> set (map fst (scanFile cache a)) \<Longrightarrow>
   k \<in> set (map fst cache)
   \<or> (\<exists>f. a = TFile f \<and> extension f = ''md'' \<and> isValidDailyNoteFilename (name f)
          \<and> k = replaceFirst NOTE_FILE_EXTENSION [] (name f))"
  by (cases a) (auto simp: scanFile_def keys_update Let_def simp del: set_map split: if_splits)

lemma foldl_scanFile_keys:
  "k \<in> set (map fst (foldl scanFile cache as)) \<Longrightarrow>
   k \<in> set (map fst cache)
   \<or> (\<exists>f. TFile f \<in> set as \<and> extension f = ''md'' \<and> isValidDailyNoteFilename (name f)
          \<and> k = replaceFirst NOTE_FILE_EXTENSION [] (name f))"
proof (induction as arbitrary: cache)
  case Nil
  then show ?case by simp
next
  case (Cons a as)
  from Cons.prems have "k \<in> set (map fst (foldl scanFile (scanFile cache a) as))" by simp
  from Cons.IH [OF this] show ?case
    using scanFile_keys [of k cache a] by auto
qed

lemma cacheKeysValid_iff:
  "cacheKeysValid this = (\<forall>k \<in> set (map fst (cachedFileList this)). validDateString k)"
  by (simp add: cacheKeysValid_def list_all_iff)

lemma scanDirectory_cache:
  "cachedFileList (snd (scanDirectory this forceRefresh now)) = cachedFileList this
   \<or> (\<exists>folder. cachedFileList (snd (scanDirectory this forceRefresh now))
        = foldl scanFile [] (children (vault this) folder))"
  by (auto simp: scanDirectory_def Let_def split: option.splits abstract_file.splits)

lemma scanDirectory_valid:
  assumes "cacheKeysValid this"
  shows "cacheKeysValid (snd (scanDirectory this forceRefresh now))"
proof -
  have "validDateString k" if "k \<in> set (map fst (foldl scanFile [] as))" for k as
    using foldl_scanFile_keys [OF that] valid_filename_stem(2) by auto
  then show ?thesis
    using assms scanDirectory_cache [of this forceRefresh now]
    unfolding cacheKeysValid_iff by metis
qed

lemma ensureDirectoryExists_cache:
  "cachedFileList (snd (ensureDirectoryExists this)) = cachedFileList this"
  by (auto simp: ensureDirectoryExists_def Let_def split: option.splits abstract_file.splits sum.splits)

lemma createNote_cache:
  "cachedFileList (snd (createNote this ds c)) = cachedFileList this
   \<or> (\<exists>f. cachedFileList (snd (createNote this ds c)) = AList.update ds f (cachedFileList this))"
proof -
  obtain b this1 where e: "ensureDirectoryExists this = (b, this1)"
    by (cases "ensureDirectoryExists this")
  then have "cachedFileList this1 = cachedFileList this"
    using ensureDirectoryExists_cache [of this] by simp
  then show ?thesis
    by (auto simp: createNote_def e Let_def split: option.splits sum.splits)
qed

lemma createNote_valid:
  assumes "cacheKeysValid this" "validDateString ds"
  shows "cacheKeysValid (snd (createNote this ds c))"
  using assms createNote_cache [of this ds c]
  unfolding cacheKeysValid_iff by (auto simp: keys_update simp del: set_map)

lemma delete_valid:
  "cacheKeysValid this \<Longrightarrow>
   cacheKeysValid (this\<lparr>cachedFileList := AList.delete ds (cachedFileList this)\<rparr>)"
  unfolding cacheKeysValid_iff by (auto simp: keys_delete simp del: set_map)

lemma saveNote_valid:
  assumes "cacheKeysValid this" "validDateString ds"
  shows "cacheKeysValid (snd (saveNote this ds c))"
proof (cases "map_of (cachedFileList this) ds")
  case None
  then show ?thesis using assms by (simp add: saveNote_def createNote_valid)
next
  case (Some f)
  show ?thesis
  proof (cases "getAbstractFileByPath (vault this) (path f)")
    case None
    then show ?thesis
      using Some assms by (simp add: saveNote_def createNote_valid delete_valid)
  next
    case (Some a)
    then show ?thesis
      using \<open>map_of (cachedFileList this) ds = Some f\<close> assms(1)
      by (auto simp: saveNote_def cacheKeysValid_def split: sum.splits)
  qed
qed

lemma deleteNote_valid:
  assumes "cacheKeysValid this"
  shows "cacheKeysValid (snd (deleteNote this ds))"
  using assms delete_valid [of this ds]
  by (auto simp: deleteNote_def cacheKeysValid_def split: option.splits sum.splits)

lemma refreshFile_valid:
  assumes "cacheKeysValid this" "validDateString ds"
  shows "cacheKeysValid (refreshFile this ds)"
  using assms delete_valid [of this ds]
  unfolding cacheKeysValid_iff
  by (auto simp: refreshFile_def keys_update simp del: set_map
      split: option.splits abstract_file.splits)

lemma loadNotes_state:
  "snd (loadNotes this opts today now) = snd (scanDirectory this False now)"
  by (simp add: loadNotes_def Let_def split: prod.splits)

lemma getOrCreateTodayNote_valid:
  assumes "cacheKeysValid this" "validDateString (formatDateToFileName today)"
  shows "cacheKeysValid (snd (getOrCreateTodayNote this today now1 now2))"
proof -
  obtain ex this1 where s: "scanDirectory this False now1 = (ex, this1)"
    by (cases "scanDirectory this False now1")
  have v1: "cacheKeysValid this1"
    using scanDirectory_valid [OF assms(1), of False now1] s by simp
  show ?thesis
  proof (cases "includes_str ex (formatDateToFileName today)")
    case True
    have "cacheKeysValid (snd (loadNotes this1 \<lparr>count = 1, startDate = Some today, appendMode = False\<rparr> today now2))"
      unfolding loadNotes_state using v1 by (rule scanDirectory_valid)
    then show ?thesis
      using True
      by (cases "loadNotes this1 \<lparr>count = 1, startDate = Some today, appendMode = False\<rparr> today now2")
         (simp add: getOrCreateTodayNote_def s Let_def)
  next
    case False
    have "cacheKeysValid (snd (createNote this1 (formatDateToFileName today) DEFAULT_NOTE_TEMPLATE))"
      using v1 assms(2) by (rule createNote_valid)
    then show ?thesis
      using False
      by (auto simp: getOrCreateTodayNote_def s Let_def split: prod.splits FileOperationResult.splits)
  qed
qed

lemma step_valid:
  assumes "cacheKeysValid this"
    and "case operationKey op of None \<Rightarrow> True | Some k \<Rightarrow> validDateString k"
  shows "cacheKeysValid (step this op)"
  using assms
  by (cases op)
     (simp_all add: scanDirectory_valid createNote_valid saveNote_valid deleteNote_valid
        getOrCreateTodayNote_valid refreshFile_valid)

lemma run_valid:
  "cacheKeysValid this \<Longrightarrow> validKeyOps ops \<Longrightarrow> cacheKeysValid (run this ops)"
  unfolding run_def validKeyOps_def
  by (induction ops arbitrary: this) (simp_all add: step_valid)

lemma set_insertBy: "set (insertBy cmp x ys) = insert x (set ys)"
  by (induction ys) auto

lemma set_sortBy: "set (sortBy cmp xs) = set xs"
  by (induction xs) (simp_all add: sortBy_def set_insertBy)

lemma set_sortDateStringsDesc: "set (sortDateStringsDesc xs) = set xs"
  by (simp add: sortDateStringsDesc_def set_sortBy)

lemma getAbstractFileByPath_TFolder:
  "getAbstractFileByPath v p = Some (TFolder q) \<Longrightarrow> q = p"
  by (auto simp: getAbstractFileByPath_def split: option.splits if_splits)

lemma children_TFile:
  "TFile g \<in> set (children v p) \<Longrightarrow> (\<exists>c. (g, c) \<in> set (files v)) \<and> parentPath (path g) = p"
  by (auto simp: children_def)

lemma scanDirectory_rescan:
  assumes "\<not> (\<not> forceRefresh \<and> now - lastScanTime this < 5000)"
  shows "scanDirectory this forceRefresh now =
     (case getAbstractFileByPath (vault this) (getDailyNotesPath this) of
        Some (TFolder folder) \<Rightarrow>
          (sortDateStringsDesc (map fst (foldl scanFile [] (children (vault this) folder))),
           this\<lparr>cachedFileList := foldl scanFile [] (children (vault this) folder),
                lastScanTime := now\<rparr>)
      | Some (TFile f) \<Rightarrow> ([], this)
      | None \<Rightarrow> ([], this))"
  using assms
  by (cases forceRefresh)
     (simp_all add: scanDirectory_def Let_def split: option.splits abstract_file.splits)

lemma scanDirectory_keys:
  assumes "k \<in> set (fst (scanDirectory this forceRefresh now))"
  shows "k \<in> set (map fst (cachedFileList this))
     \<or> (\<exists>g c. (g, c) \<in> set (files (vault this)) \<and> parentPath (path g) = getDailyNotesPath this
           \<and> isValidDailyNoteFilename (name g)
           \<and> k = replaceFirst NOTE_FILE_EXTENSION [] (name g))"
proof (cases "\<not> forceRefresh \<and> now - lastScanTime this < 5000")
  case True
  with assms show ?thesis by (simp add: scanDirectory_def)
next
  case False
  show ?thesis
  proof (cases "getAbstractFileByPath (vault this) (getDailyNotesPath this)")
    case None
    with assms show ?thesis by (simp add: scanDirectory_rescan [OF False])
  next
    case (Some a)
    show ?thesis
    proof (cases a)
      case (TFile f)
      with Some assms show ?thesis by (simp add: scanDirectory_rescan [OF False])
    next
      case (TFolder q)
      with Some have q: "q = getDailyNotesPath this"
        using getAbstractFileByPath_TFolder by simp
      from assms have "k \<in> set (map fst (foldl scanFile [] (children (vault this) q)))"
        using Some TFolder
        by (simp add: scanDirectory_rescan [OF False] set_sortDateStringsDesc del: set_map)
      from foldl_scanFile_keys [OF this] obtain g where
        "TFile g \<in> set (children (vault this) q)" "isValidDailyNoteFilename (name g)"
        "k = replaceFirst NOTE_FILE_EXTENSION [] (name g)"
        by auto
      then show ?thesis using children_TFile [of g "vault this" q] q by blast
    qed
  qed
qed

lemma noteExists_after_delete:
  assumes c: "map_of (cachedFileList this) ds = Some f"
    and d: "vault_delete (vault this) f = Inr v"
    and p: "path f = getNotePath this ds"
    and w: "vaultPathsConsistent (vault this)"
  shows "fst (noteExists (snd (deleteNote this ds)) ds now) = False"
proof -
  define this' where
    "this' = this\<lparr>vault := v, cachedFileList := AList.delete ds (cachedFileList this)\<rparr>"
  have r: "snd (deleteNote this ds) = this'"
    using c d by (simp add: deleteNote_def this'_def)
  have v: "files v = filter (\<lambda>(g, c). path g \<noteq> path f) (files (vault this))"
    using d by (auto simp: vault_delete_def split: option.splits)
  have "ds \<notin> set (fst (scanDirectory this' False now))"
  proof
    assume "ds \<in> set (fst (scanDirectory this' False now))"
    from scanDirectory_keys [OF this]
    consider "ds \<in> set (map fst (cachedFileList this'))"
      | g c where "(g, c) \<in> set (files (vault this'))"
          "parentPath (path g) = getDailyNotesPath this'"
          "isValidDailyNoteFilename (name g)" "ds = replaceFirst NOTE_FILE_EXTENSION [] (name g)"
      by blast
    then show False
    proof cases
      case 1
      then show False
        using delete_notin_dom [of ds "cachedFileList this"] by (simp add: this'_def)
    next
      case 2
      from 2(1) have in_old: "(g, c) \<in> set (files (vault this))" and ne: "path g \<noteq> path f"
        by (auto simp: this'_def v)
      from w in_old have "path g = parentPath (path g) @ ''/'' @ name g"
        by (auto simp: vaultPathsConsistent_def list_all_iff)
      moreover have "name g = ds @ ''.md''"
        using valid_filename_stem(1) [OF 2(3)] 2(4) by simp
      moreover have "parentPath (path g) = dailyNotesPath (settings this)"
        using 2(2) by (simp add: this'_def getDailyNotesPath_def)
      ultimately have "path g = getNotePath this ds"
        by (simp add: getNotePath_def NOTE_FILE_EXTENSION_def)
      with p ne show False by simp
    qed
  qed
  then show ?thesis
    by (cases "scanDirectory this' False now") (simp add: r noteExists_def includes_str_def)
qed

section \<open>The order of dates and the order of date-strings\<close>

lemma div_succ_int:
  fixes k n :: int
  assumes "0 < n"
  shows "(k + 1) div n = k div n + (if (k + 1) mod n = 0 then 1 else 0)"
proof (cases "k mod n = n - 1")
  case True
  define q where "q = k div n"
  have "k = n * q + (n - 1)"
    using True mult_div_mod_eq [of n k] by (simp add: q_def)
  then have e: "k + 1 = n * (k div n + 1) + 0"
    by (simp add: algebra_simps flip: q_def)
  have "(k + 1) div n = k div n + 1"
    by (rule int_div_pos_eq [OF e]) (use assms in simp_all)
  moreover have "(k + 1) mod n = 0"
    by (rule int_mod_pos_eq [OF e]) (use assms in simp_all)
  ultimately show ?thesis by simp
next
  case False
  have r: "0 \<le> k mod n" "k mod n < n" using assms by simp_all
  with False have r1: "0 \<le> k mod n + 1" "k mod n + 1 < n" by simp_all
  have e: "k + 1 = n * (k div n) + (k mod n + 1)"
    using mult_div_mod_eq [of n k] by simp
  have "(k + 1) div n = k div n"
    using e r1 by (rule int_div_pos_eq)
  moreover have "(k + 1) mod n = k mod n + 1"
    using e r1 by (rule int_mod_pos_eq)
  ultimately show ?thesis using r by simp
qed

lemma mod_shift: "(y - c * n) mod n = y mod n" for y c n :: int
  using mod_mult_self1 [of y "- c" n] by simp


lemma year_steps:
  fixes y :: int
  shows "(y + 1 - 1969) div 4 = (y - 1969) div 4 + (if y mod 4 = 0 then 1 else 0)"
    and "(y + 1 - 1901) div 100 = (y - 1901) div 100 + (if y mod 100 = 0 then 1 else 0)"
    and "(y + 1 - 1601) div 400 = (y - 1601) div 400 + (if y mod 400 = 0 then 1 else 0)"
proof -
  have m4: "(y - 1969 + 1) mod 4 = y mod 4"
    using mod_shift [of y 492 4] by simp
  have m100: "(y - 1901 + 1) mod 100 = y mod 100"
    using mod_shift [of y 19 100] by simp
  have m400: "(y - 1601 + 1) mod 400 = y mod 400"
    using mod_shift [of y 4 400] by simp
  have s: "y + 1 - 1969 = y - 1969 + 1" "y + 1 - 1901 = y - 1901 + 1" "y + 1 - 1601 = y - 1601 + 1"
    by simp_all
  show "(y + 1 - 1969) div 4 = (y - 1969) div 4 + (if y mod 4 = 0 then 1 else 0)"
  proof -
    have "(y - 1969 + 1) div 4 = (y - 1969) div 4 + (if (y - 1969 + 1) mod 4 = 0 then 1 else 0)"
      by (rule div_succ_int) simp
    then show ?thesis by (simp only: m4 s(1))
  qed
  show "(y + 1 - 1901) div 100 = (y - 1901) div 100 + (if y mod 100 = 0 then 1 else 0)"
  proof -
    have "(y - 1901 + 1) div 100 = (y - 1901) div 100 + (if (y - 1901 + 1) mod 100 = 0 then 1 else 0)"
      by (rule div_succ_int) simp
    then show ?thesis by (simp only: m100 s(2))
  qed
  show "(y + 1 - 1601) div 400 = (y - 1601) div 400 + (if y mod 400 = 0 then 1 else 0)"
  proof -
    have "(y - 1601 + 1) div 400 = (y - 1601) div 400 + (if (y - 1601 + 1) mod 400 = 0 then 1 else 0)"
      by (rule div_succ_int) simp
    then show ?thesis by (simp only: m400 s(3))
  qed
qed


lemma dayFromYear_next:
  "dayFromYear (y + 1) = dayFromYear y + (if isLeapYear y then 366 else 365)"
proof -
  have "(100::int) dvd 400" "(4::int) dvd 100" by simp_all
  then have d: "y mod 400 = 0 \<Longrightarrow> y mod 100 = 0" "y mod 100 = 0 \<Longrightarrow> y mod 4 = 0"
    using dvd_trans [of 100 400 y] dvd_trans [of 4 100 y] by (simp_all add: mod_eq_0_iff_dvd)
  have "dayFromYear (y + 1) =
        365 * (y + 1 - 1970) + (y + 1 - 1969) div 4 - (y + 1 - 1901) div 100 + (y + 1 - 1601) div 400"
    by (simp only: dayFromYear_def)
  also have "\<dots> = dayFromYear y + 365 + (if y mod 4 = 0 then 1 else 0)
        - (if y mod 100 = 0 then 1 else 0) + (if y mod 400 = 0 then 1 else 0)"
    unfolding year_steps dayFromYear_def by (simp only: ring_distribs)
  finally have e: "dayFromYear (y + 1) = dayFromYear y + 365 + (if y mod 4 = 0 then 1 else 0)
        - (if y mod 100 = 0 then 1 else 0) + (if y mod 400 = 0 then 1 else 0)" .
  show ?thesis
  proof (cases "y mod 4 = 0")
    case False
    have n100: "y mod 100 \<noteq> 0" using d(2) False by (intro notI) simp
    have n400: "y mod 400 \<noteq> 0" using d(1) n100 by (intro notI) simp
    show ?thesis unfolding e isLeapYear_def using False n100 n400 by simp
  next
    case True
    show ?thesis
    proof (cases "y mod 100 = 0")
      case False
      have "y mod 400 \<noteq> 0" using d(1) False by (intro notI) simp
      with True False show ?thesis unfolding e isLeapYear_def by simp
    next
      case c: True
      then show ?thesis using True unfolding e isLeapYear_def by (cases "y mod 400 = 0") simp_all
    qed
  qed
qed



lemma dayFromYear_mono_aux:
  "y1 + 1 \<le> y2 \<Longrightarrow> dayFromYear (y1 + 1) \<le> dayFromYear y2"
proof (induction y2 rule: int_ge_induct)
  case base
  then show ?case by simp
next
  case (step i)
  then show ?case by (simp add: dayFromYear_next)
qed

lemma daysInMonth_ge: "28 \<le> daysInMonth y m"
  by (simp add: daysInMonth_def)

lemma daysBeforeMonth_mono: "m \<le> n \<Longrightarrow> daysBeforeMonth y m \<le> daysBeforeMonth y n"
proof (induction n)
  case 0
  then show ?case by simp
next
  case (Suc n)
  show ?case
  proof (cases "m = Suc n")
    case True
    then show ?thesis by simp
  next
    case False
    with Suc have "daysBeforeMonth y m \<le> daysBeforeMonth y n" by simp
    then show ?thesis using daysInMonth_ge [of y "int n"] by simp
  qed
qed

lemma daysBeforeMonth_nonneg: "0 \<le> daysBeforeMonth y m"
  using daysBeforeMonth_mono [of 0 m y] by simp

lemma daysBeforeMonth_12: "daysBeforeMonth y 12 = (if isLeapYear y then 366 else 365)"
  by (simp add: numeral_eq_Suc daysInMonth_def)

lemma getTime_dayNumber: "getTime d = 86400000 * dayNumber d"
  by (simp add: getTime_def dayNumber_def)

lemma dayNumber_bounds:
  assumes "isCalendarDate d"
  shows "dayFromYear (getFullYear d) \<le> dayNumber d"
    and "dayNumber d < dayFromYear (getFullYear d + 1)"
proof -
  let ?y = "getFullYear d"
  from assms have m: "0 \<le> getMonth d" "getMonth d \<le> 11" and dd: "1 \<le> getDate d"
    "getDate d \<le> daysInMonth ?y (getMonth d)"
    by (simp_all add: isCalendarDate_def)
  show "dayFromYear ?y \<le> dayNumber d"
    using daysBeforeMonth_nonneg [of ?y "nat (getMonth d)"] dd by (simp add: dayNumber_def)
  have "daysBeforeMonth ?y (nat (getMonth d)) + daysInMonth ?y (getMonth d)
        = daysBeforeMonth ?y (Suc (nat (getMonth d)))"
    using m by simp
  also have "\<dots> \<le> daysBeforeMonth ?y 12"
    using m by (intro daysBeforeMonth_mono) simp
  finally have "daysBeforeMonth ?y (nat (getMonth d)) + getDate d
        \<le> (if isLeapYear ?y then 366 else 365)"
    using dd by (simp add: daysBeforeMonth_12 split: if_splits)
  then show "dayNumber d < dayFromYear (?y + 1)"
    by (simp add: dayNumber_def dayFromYear_next split: if_splits)
qed

lemma dayNumber_mono:
  assumes "isCalendarDate a" "isCalendarDate b" "dateLess a b"
  shows "dayNumber a < dayNumber b"
proof -
  consider "getFullYear a < getFullYear b"
    | "getFullYear a = getFullYear b" "getMonth a < getMonth b"
    | "getFullYear a = getFullYear b" "getMonth a = getMonth b" "getDate a < getDate b"
    using assms(3) by (auto simp: dateLess_def)
  then show ?thesis
  proof cases
    case 1
    have "dayNumber a < dayFromYear (getFullYear a + 1)"
      using assms(1) by (rule dayNumber_bounds)
    also have "\<dots> \<le> dayFromYear (getFullYear b)"
      using 1 by (intro dayFromYear_mono_aux) simp
    also have "\<dots> \<le> dayNumber b"
      using assms(2) by (rule dayNumber_bounds)
    finally show ?thesis .
  next
    case 2
    let ?y = "getFullYear b"
    from assms have ma: "0 \<le> getMonth a" and da: "getDate a \<le> daysInMonth ?y (getMonth a)"
      and db: "1 \<le> getDate b"
      by (simp_all add: isCalendarDate_def 2)
    have "daysBeforeMonth ?y (nat (getMonth a)) + daysInMonth ?y (getMonth a)
        = daysBeforeMonth ?y (Suc (nat (getMonth a)))"
      using ma by simp
    also have "\<dots> \<le> daysBeforeMonth ?y (nat (getMonth b))"
      using 2 ma by (intro daysBeforeMonth_mono) simp
    finally show ?thesis
      using da db by (simp add: dayNumber_def 2)
  next
    case 3
    then show ?thesis by (simp add: dayNumber_def)
  qed
qed

lemma dateLess_trichotomy: "dateLess a b \<or> a = b \<or> dateLess b a" for a b :: jsdate
  by (cases a; cases b) (auto simp: dateLess_def)

lemma getTime_less_iff:
  assumes "isCalendarDate a" "isCalendarDate b"
  shows "(getTime a < getTime b) = dateLess a b"
proof
  assume "dateLess a b"
  then show "getTime a < getTime b"
    using dayNumber_mono [OF assms] by (simp add: getTime_dayNumber)
next
  assume l: "getTime a < getTime b"
  show "dateLess a b"
  proof (rule ccontr)
    assume n: "\<not> dateLess a b"
    then consider "a = b" | "dateLess b a" using dateLess_trichotomy by blast
    then show False
    proof cases
      case 1
      with l show False by simp
    next
      case 2
      then have "getTime b < getTime a"
        using dayNumber_mono [OF assms(2,1)] by (simp add: getTime_dayNumber)
      with l show False by simp
    qed
  qed
qed

lemma getTime_le_iff:
  assumes "isCalendarDate a" "isCalendarDate b"
  shows "(getTime a \<le> getTime b) = (\<not> dateLess b a)"
proof -
  have "dateLess b a = (getTime b < getTime a)"
    using getTime_less_iff [OF assms(2,1)] by simp
  then show ?thesis by (simp add: not_less)
qed

lemma insertBy_sorted:
  assumes tot: "\<And>a b. a \<in> A \<Longrightarrow> b \<in> A \<Longrightarrow> cmp a b \<le> 0 \<or> cmp b a \<le> 0"
    and tr: "\<And>a b c. a \<in> A \<Longrightarrow> b \<in> A \<Longrightarrow> c \<in> A \<Longrightarrow> cmp a b \<le> 0 \<Longrightarrow> cmp b c \<le> 0
               \<Longrightarrow> cmp a c \<le> 0"
  shows "x \<in> A \<Longrightarrow> set ys \<subseteq> A \<Longrightarrow> sorted_wrt (\<lambda>a b. cmp a b \<le> 0) ys \<Longrightarrow>
         sorted_wrt (\<lambda>a b. cmp a b \<le> 0) (insertBy cmp x ys)"
proof (induction ys)
  case Nil
  then show ?case by simp
next
  case (Cons y ys)
  from Cons.prems have xA: "x \<in> A" and yA: "y \<in> A" and ysA: "set ys \<subseteq> A"
    and yle: "\<forall>z \<in> set ys. cmp y z \<le> 0" and srt: "sorted_wrt (\<lambda>a b. cmp a b \<le> 0) ys"
    by simp_all
  show ?case
  proof (cases "cmp x y \<le> 0")
    case True
    have "cmp x z \<le> 0" if "z \<in> set ys" for z
    proof -
      from that ysA have "z \<in> A" by blast
      moreover from that yle have "cmp y z \<le> 0" by blast
      ultimately show ?thesis using tr [OF xA yA _ True] by blast
    qed
    with True yle srt show ?thesis by simp
  next
    case False
    then have "cmp y x \<le> 0" using tot [OF xA yA] by blast
    moreover have "sorted_wrt (\<lambda>a b. cmp a b \<le> 0) (insertBy cmp x ys)"
      using Cons.IH [OF xA ysA srt] .
    ultimately show ?thesis
      using False yle by (simp add: set_insertBy)
  qed
qed

lemma sortBy_sorted:
  assumes tot: "\<And>a b. a \<in> A \<Longrightarrow> b \<in> A \<Longrightarrow> cmp a b \<le> 0 \<or> cmp b a \<le> 0"
    and tr: "\<And>a b c. a \<in> A \<Longrightarrow> b \<in> A \<Longrightarrow> c \<in> A \<Longrightarrow> cmp a b \<le> 0 \<Longrightarrow> cmp b c \<le> 0
               \<Longrightarrow> cmp a c \<le> 0"
  shows "set xs \<subseteq> A \<Longrightarrow> sorted_wrt (\<lambda>a b. cmp a b \<le> 0) (sortBy cmp xs)"
proof (induction xs)
  case Nil
  then show ?case by (simp add: sortBy_def)
next
  case (Cons x xs)
  from Cons.prems have xA: "x \<in> A" and xsA: "set (sortBy cmp xs) \<subseteq> A"
    by (simp_all add: set_sortBy)
  have "sorted_wrt (\<lambda>a b. cmp a b \<le> 0) (sortBy cmp xs)"
    using Cons by simp
  then have "sorted_wrt (\<lambda>a b. cmp a b \<le> 0) (insertBy cmp x (sortBy cmp xs))"
    using insertBy_sorted [of A cmp x "sortBy cmp xs"] tot tr xA xsA by blast
  then show ?case by (simp add: sortBy_def)
qed

lemma distinct_insertBy: "distinct (insertBy cmp x ys) = (x \<notin> set ys \<and> distinct ys)"
  by (induction ys) (auto simp: set_insertBy)

lemma distinct_sortBy: "distinct (sortBy cmp xs) = distinct xs"
proof (induction xs)
  case Nil
  then show ?case by (simp add: sortBy_def)
next
  case (Cons x xs)
  have "sortBy cmp (x # xs) = insertBy cmp x (sortBy cmp xs)" by (simp add: sortBy_def)
  then show ?case using Cons by (simp add: distinct_insertBy set_sortBy)
qed

lemma validDateString_parse:
  "validDateString a \<Longrightarrow> \<exists>d. parseDateString a = Some d \<and> isCalendarDate d \<and> formatDateToFileName d = a"
proof -
  assume "validDateString a"
  then obtain d where p: "parseDateFromFilename (a @ ''.md'') = Some d"
    by (auto simp: validDateString_def parseDateString_def NOTE_FILE_EXTENSION_def)
  note q = parseDateFromFilename_Some [OF p]
  from q have "formatDateToFileName d = a"
    by (simp add: generateFilename_def NOTE_FILE_EXTENSION_def)
  with p q show ?thesis
    by (simp add: parseDateString_def NOTE_FILE_EXTENSION_def)
qed

lemma dateStringCompare_valid:
  assumes "parseDateString a = Some da" "parseDateString b = Some db"
  shows "dateStringCompare a b = getTime db - getTime da"
  using assms by (simp add: dateStringCompare_def compareDates_def)



lemma sortDateStringsDesc_sorted:
  assumes "list_all validDateString xs"
  shows "sorted_wrt (\<lambda>a b. dateStringCompare a b \<le> 0) (sortDateStringsDesc xs)"
  unfolding sortDateStringsDesc_def
proof (rule sortBy_sorted [where A = "{s. validDateString s}"])
  fix a b
  assume "a \<in> {s. validDateString s}" "b \<in> {s. validDateString s}"
  then obtain da db where "parseDateString a = Some da" "parseDateString b = Some db"
    using validDateString_parse by blast
  then show "dateStringCompare a b \<le> 0 \<or> dateStringCompare b a \<le> 0"
    by (simp add: dateStringCompare_valid) linarith
next
  fix a b c
  assume "a \<in> {s. validDateString s}" "b \<in> {s. validDateString s}" "c \<in> {s. validDateString s}"
  then obtain da db dc where "parseDateString a = Some da" "parseDateString b = Some db"
    "parseDateString c = Some dc"
    using validDateString_parse by blast
  then show "dateStringCompare a b \<le> 0 \<Longrightarrow> dateStringCompare b c \<le> 0 \<Longrightarrow> dateStringCompare a c \<le> 0"
    by (simp add: dateStringCompare_valid)
next
  show "set xs \<subseteq> {s. validDateString s}"
    using assms by (auto simp: list_all_iff)
qed

lemma dateStringCompare_newer:
  assumes "validDateString a" "validDateString b" "a \<noteq> b" "dateStringCompare a b \<le> 0"
  shows "newerThan a b"
proof -
  from assms(1,2) obtain da db where
    a: "parseDateString a = Some da" "isCalendarDate da" "formatDateToFileName da = a"
    and b: "parseDateString b = Some db" "isCalendarDate db" "formatDateToFileName db = b"
    using validDateString_parse by blast
  have "da \<noteq> db" using a(3) b(3) assms(3) by auto
  moreover have "getTime db \<le> getTime da"
    using assms(4) a(1) b(1) by (simp add: dateStringCompare_valid)
  ultimately have "dateLess db da"
    using getTime_le_iff [OF b(2) a(2)] dateLess_trichotomy [of da db] by auto
  then show ?thesis by (simp add: newerThan_def a(1) b(1))
qed

lemma sortDateStringsDesc_newest_first:
  assumes "list_all validDateString xs" "distinct xs"
  shows "sorted_wrt newerThan (sortDateStringsDesc xs)"
proof -
  let ?ys = "sortDateStringsDesc xs"
  have s: "sorted_wrt (\<lambda>a b. dateStringCompare a b \<le> 0) ?ys"
    using assms(1) by (rule sortDateStringsDesc_sorted)
  have d: "distinct ?ys"
    using assms(2) by (simp add: sortDateStringsDesc_def distinct_sortBy)
  have v: "\<forall>a \<in> set ?ys. validDateString a"
    using assms(1) by (simp add: set_sortDateStringsDesc list_all_iff)
  have "sorted_wrt (\<lambda>a b. (dateStringCompare a b \<le> 0 \<and> a \<noteq> b) \<and> validDateString a \<and> validDateString b) ?ys"
    using s d v by (simp add: sorted_wrt_iff_nth_less nth_eq_iff_index_eq)
  then show ?thesis
    by (rule sorted_wrt_mono_rel [rotated]) (auto intro: dateStringCompare_newer)
qed

lemma strLe_append_same_length:
  "length x = length y \<Longrightarrow> strLe (x @ r) (y @ s) = (if x = y then strLe r s else strLe x y)"
proof (induction x y rule: list_induct2)
  case Nil
  then show ?case by simp
next
  case (Cons c x c' y)
  consider "(of_char c :: nat) < of_char c'" | "(of_char c' :: nat) < of_char c"
    | "(of_char c :: nat) = of_char c'"
    by linarith
  then show ?case
  proof cases
    case 1
    then have "c \<noteq> c'" by auto
    with 1 show ?thesis by simp
  next
    case 2
    then have "c \<noteq> c'" by auto
    with 2 show ?thesis by simp
  next
    case 3
    then have "c = c'" by (simp only: of_char_eq_iff)
    with Cons show ?thesis by simp
  qed
qed

lemma parseDigits_acc:
  "list_all isDigit x \<Longrightarrow> parseDigits acc x = acc * 10 ^ length x + parseDigits 0 x"
proof (induction x arbitrary: acc)
  case Nil
  then show ?case by simp
next
  case (Cons c x)
  then have d: "list_all isDigit x" by simp
  have "parseDigits acc (c # x) = parseDigits (acc * 10 + digitVal c) x"
    using Cons.prems by simp
  also have "\<dots> = (acc * 10 + digitVal c) * 10 ^ length x + parseDigits 0 x"
    using Cons.IH [OF d] .
  also have "parseDigits 0 x = parseDigits (digitVal c) x - digitVal c * 10 ^ length x"
    using Cons.IH [OF d, of "digitVal c"] by simp
  also have "parseDigits (digitVal c) x = parseDigits 0 (c # x)"
    using Cons.prems by simp
  finally show ?case by (simp add: algebra_simps)
qed

lemma digits_compare:
  "length x = length y \<Longrightarrow> list_all isDigit x \<Longrightarrow> list_all isDigit y \<Longrightarrow>
   (strLe x y = (parseDigits 0 x \<le> parseDigits 0 y)) \<and> ((x = y) = (parseDigits 0 x = parseDigits 0 y))"
proof (induction x y rule: list_induct2)
  case Nil
  then show ?case by simp
next
  case (Cons c x c' y)
  from Cons.prems have dx: "list_all isDigit x" and dy: "list_all isDigit y"
    and dc: "isDigit c" "isDigit c'" by simp_all
  define n where "n = length x"
  define vx where "vx = parseDigits 0 x"
  define vy where "vy = parseDigits 0 y"
  have bx: "0 \<le> vx" "vx < 10 ^ n"
    using parseDigits_lower [OF dx, of 0] parseDigits_upper [OF dx, of 0] by (simp_all add: vx_def n_def)
  have bw: "0 \<le> vy" "vy < 10 ^ n"
    using parseDigits_lower [OF dy, of 0] parseDigits_upper [OF dy, of 0] Cons.hyps
    by (simp_all add: vy_def n_def)
  define P where "P = parseDigits 0 (c # x)"
  define Q where "Q = parseDigits 0 (c' # y)"
  have ex: "P = digitVal c * 10 ^ n + vx"
    using parseDigits_acc [OF dx, of "digitVal c"] dc by (simp add: vx_def n_def P_def)
  have ey: "Q = digitVal c' * 10 ^ n + vy"
    using parseDigits_acc [OF dy, of "digitVal c'"] dc Cons.hyps by (simp add: vy_def n_def Q_def)
  have step: "a * 10 ^ n + u < b * 10 ^ n + w"
    if "a < b" "u < 10 ^ n" "0 \<le> w" for a b u w :: int
  proof -
    have "a * 10 ^ n + u < (a + 1) * 10 ^ n" using that(2) by (simp add: algebra_simps)
    also have "\<dots> \<le> b * 10 ^ n" using that(1) by (intro mult_right_mono) simp_all
    also have "\<dots> \<le> b * 10 ^ n + w" using that(3) by simp
    finally show ?thesis .
  qed
  have "(strLe (c # x) (c' # y) = (P \<le> Q)) \<and> ((c # x = c' # y) = (P = Q))"
  proof -
    consider "(of_char c :: nat) < of_char c'" | "(of_char c' :: nat) < of_char c"
      | "(of_char c :: nat) = of_char c'"
      by linarith
    then show ?thesis
    proof cases
      case 1
      then have "digitVal c < digitVal c'" by (simp add: digitVal_def)
      from step [OF this bx(2) bw(1)] have "P < Q" by (simp only: ex ey)
      moreover from 1 have "c \<noteq> c'" by auto
      ultimately show ?thesis using 1 by simp
    next
      case 2
      then have "digitVal c' < digitVal c" by (simp add: digitVal_def)
      from step [OF this bw(2) bx(1)] have "Q < P" by (simp only: ex ey)
      moreover from 2 have "c \<noteq> c'" by auto
      ultimately show ?thesis using 2 by simp
    next
      case 3
      then have "c = c'" by (simp only: of_char_eq_iff)
      then show ?thesis
        using Cons.IH [OF dx dy] by (simp add: ex ey vx_def vy_def)
    qed
  qed
  then show ?case by (simp only: P_def Q_def)
qed

lemma valid_date_string_shape:
  assumes "parseDateString a = Some d"
  shows "\<exists>y m dd. a = y @ ''-'' @ m @ ''-'' @ dd
      \<and> length y = 4 \<and> list_all isDigit y \<and> length m = 2 \<and> list_all isDigit m
      \<and> length dd = 2 \<and> list_all isDigit dd
      \<and> d = \<lparr>getFullYear = parseDigits 0 y, getMonth = parseDigits 0 m - 1,
               getDate = parseDigits 0 dd\<rparr>"
proof -
  from assms have p: "parseDateFromFilename (a @ ''.md'') = Some d"
    by (simp add: parseDateString_def NOTE_FILE_EXTENSION_def)
  then have "regexTest DAILY_NOTE_FILENAME_REGEX (a @ ''.md'')"
    using parseDateFromFilename_Some by blast
  then have "matchAtoms DATE_STRING_ATOMS a" by (simp add: regexTest_filename)
  from date_string_shape [OF this] obtain y m dd where
    a: "a = y @ ''-'' @ m @ ''-'' @ dd"
    and q: "length y = 4" "list_all isDigit y" "length m = 2" "list_all isDigit m"
      "length dd = 2" "list_all isDigit dd"
    by blast
  have "checkTriple (parseDigits 0 y) (parseDigits 0 m) (parseDigits 0 dd) = Some d"
    using p parseDateFromFilename_parts [OF q] by (simp add: a)
  from checkTriple_Some(1) [OF this] a q show ?thesis by blast
qed

lemma string_order_is_date_order:
  assumes "parseDateString a = Some da" "parseDateString b = Some db"
  shows "strLe a b = (\<not> dateLess db da)"
proof -
  from valid_date_string_shape [OF assms(1)] obtain y m d where
    a: "a = y @ ''-'' @ m @ ''-'' @ d"
    and qa: "length y = 4" "list_all isDigit y" "length m = 2" "list_all isDigit m"
      "length d = 2" "list_all isDigit d"
    and da: "da = \<lparr>getFullYear = parseDigits 0 y, getMonth = parseDigits 0 m - 1,
               getDate = parseDigits 0 d\<rparr>"
    by blast
  from valid_date_string_shape [OF assms(2)] obtain y' m' d' where
    b: "b = y' @ ''-'' @ m' @ ''-'' @ d'"
    and qb: "length y' = 4" "list_all isDigit y'" "length m' = 2" "list_all isDigit m'"
      "length d' = 2" "list_all isDigit d'"
    and db: "db = \<lparr>getFullYear = parseDigits 0 y', getMonth = parseDigits 0 m' - 1,
               getDate = parseDigits 0 d'\<rparr>"
    by blast
  have cy: "strLe y y' = (parseDigits 0 y \<le> parseDigits 0 y')"
    "(y = y') = (parseDigits 0 y = parseDigits 0 y')"
    using digits_compare [of y y'] qa qb by simp_all
  have cm: "strLe m m' = (parseDigits 0 m \<le> parseDigits 0 m')"
    "(m = m') = (parseDigits 0 m = parseDigits 0 m')"
    using digits_compare [of m m'] qa qb by simp_all
  have cd: "strLe d d' = (parseDigits 0 d \<le> parseDigits 0 d')"
    using digits_compare [of d d'] qa qb by simp
  have d2: "strLe (d @ []) (d' @ []) = strLe d d'" by simp
  have "strLe (m @ ''-'' @ d) (m' @ ''-'' @ d') = (if m = m' then strLe d d' else strLe m m')"
    using strLe_append_same_length [of m m' "''-'' @ d" "''-'' @ d'"] qa qb by simp
  moreover have "strLe a b
      = (if y = y' then strLe (m @ ''-'' @ d) (m' @ ''-'' @ d') else strLe y y')"
    unfolding a b
    using strLe_append_same_length [of y y' "''-'' @ m @ ''-'' @ d" "''-'' @ m' @ ''-'' @ d'"] qa qb
    by simp
  ultimately have "strLe a b
      = (if y = y' then (if m = m' then strLe d d' else strLe m m') else strLe y y')"
    by simp
  then show ?thesis
    unfolding cy cm cd da db dateLess_def by auto
qed

lemma dateStringCompare_strLe:
  assumes "validDateString a" "validDateString b"
  shows "(dateStringCompare a b \<le> 0) = strLe b a"
proof -
  from assms obtain da db where
    a: "parseDateString a = Some da" "isCalendarDate da"
    and b: "parseDateString b = Some db" "isCalendarDate db"
    using validDateString_parse by blast
  have "(dateStringCompare a b \<le> 0) = (getTime db \<le> getTime da)"
    by (simp add: dateStringCompare_valid [OF a(1) b(1)])
  also have "\<dots> = (\<not> dateLess da db)"
    using b(2) a(2) by (rule getTime_le_iff)
  also have "\<dots> = strLe b a"
    using string_order_is_date_order [OF b(1) a(1)] by simp
  finally show ?thesis .
qed

lemma scanFile_keys_eq:
  "set (map fst (scanFile cache a)) =
   set (map fst cache)
   \<union> {k. \<exists>f. a = TFile f \<and> extension f = ''md'' \<and> isValidDailyNoteFilename (name f)
          \<and> k = replaceFirst NOTE_FILE_EXTENSION [] (name f)}"
  by (cases a) (auto simp: scanFile_def keys_update Let_def simp del: set_map)

lemma foldl_scanFile_keys_eq:
  "set (map fst (foldl scanFile cache as)) =
   set (map fst cache)
   \<union> {k. \<exists>f. TFile f \<in> set as \<and> extension f = ''md'' \<and> isValidDailyNoteFilename (name f)
          \<and> k = replaceFirst NOTE_FILE_EXTENSION [] (name f)}"
proof (induction as arbitrary: cache)
  case Nil
  then show ?case by simp
next
  case (Cons a as)
  have "set (map fst (foldl scanFile cache (a # as)))
        = set (map fst (foldl scanFile (scanFile cache a) as))" by simp
  also note Cons.IH [of "scanFile cache a"]
  also note scanFile_keys_eq [of cache a]
  finally show ?case by (auto simp del: set_map)
qed

lemma scanFile_distinct:
  "distinct (map fst cache) \<Longrightarrow> distinct (map fst (scanFile cache a))"
  by (cases a) (simp_all add: scanFile_def Let_def distinct_update)

lemma foldl_scanFile_distinct:
  "distinct (map fst cache) \<Longrightarrow> distinct (map fst (foldl scanFile cache as))"
  by (induction as arbitrary: cache) (simp_all add: scanFile_distinct)

lemma foldl_scanFile_valid:
  "list_all validDateString (map fst (foldl scanFile [] as))"
  unfolding list_all_iff
proof
  fix k
  assume "k \<in> set (map fst (foldl scanFile [] as))"
  from foldl_scanFile_keys [OF this] show "validDateString k"
    using valid_filename_stem(2) by auto
qed

lemma newerThan_strLe:
  assumes "newerThan a b"
  shows "strLe b a \<and> a \<noteq> b"
proof -
  from assms obtain da db where a: "parseDateString a = Some da"
    and b: "parseDateString b = Some db" and l: "dateLess db da"
    by (auto simp: newerThan_def split: option.splits)
  have "\<not> dateLess da db" using l by (auto simp: dateLess_def)
  then have "strLe b a" using string_order_is_date_order [OF b a] by simp
  moreover have "a \<noteq> b" using a b l by (auto simp: dateLess_def)
  ultimately show ?thesis by simp
qed

lemma scanDirectory_result_keys:
  "set (fst (scanDirectory this forceRefresh now))
   \<subseteq> set (map fst (cachedFileList (snd (scanDirectory this forceRefresh now))))"
proof (cases "\<not> forceRefresh \<and> now - lastScanTime this < 5000")
  case True
  then show ?thesis by (simp add: scanDirectory_def)
next
  case False
  then show ?thesis
    by (auto simp: scanDirectory_rescan [OF False] set_sortDateStringsDesc
        simp del: set_map split: option.splits abstract_file.splits)
qed

lemma loadNote_dateString:
  "loadNote this ds = Some n \<Longrightarrow> dateString n = ds"
  by (auto simp: loadNote_def Let_def split: option.splits)

lemma loadNote_valid:
  "validDateString ds \<Longrightarrow> \<exists>n. loadNote this ds = Some n"
  by (auto simp: loadNote_def Let_def validDateString_def split: option.splits)

lemma map_filter_loadNote:
  "list_all validDateString xs \<Longrightarrow> map dateString (List.map_filter (loadNote this) xs) = xs"
proof (induction xs)
  case Nil
  then show ?case by (simp add: List.map_filter_simps)
next
  case (Cons x xs)
  then obtain n where n: "loadNote this x = Some n" using loadNote_valid by auto
  with Cons show ?case
    by (simp add: List.map_filter_simps loadNote_dateString [OF n])
qed

lemma length_map_filter: "length (List.map_filter f xs) \<le> length xs"
  by (induction xs) (auto simp: List.map_filter_simps split: option.splits)

section \<open>Scanning and paging when the directory is listed\<close>

text \<open>
  When \<^verbatim>\<open>scanDirectory\<close> lists the directory (the scan is forced, or the freshness
  window has passed) and the configured path is a folder, it rebuilds the cache from
  the listing alone, records the time of the scan, and returns exactly the
  date-strings of the files whose names pass validation, without repetition, each
  newer than those after it; so the list is also strictly descending as strings.
\<close>

lemma scanDirectory_relists:
  assumes "forceRefresh \<or> 5000 \<le> now - lastScanTime this"
    and "getAbstractFileByPath (vault this) (getDailyNotesPath this) = Some (TFolder p)"
  shows "snd (scanDirectory this forceRefresh now)
           = this\<lparr>cachedFileList := foldl scanFile [] (children (vault this) p),
                  lastScanTime := now\<rparr>
    \<and> set (fst (scanDirectory this forceRefresh now))
         = {k. \<exists>g. TFile g \<in> set (children (vault this) p) \<and> extension g = ''md''
                \<and> isValidDailyNoteFilename (name g)
                \<and> k = replaceFirst NOTE_FILE_EXTENSION [] (name g)}
    \<and> set (fst (scanDirectory this forceRefresh now))
         = set (map fst (cachedFileList (snd (scanDirectory this forceRefresh now))))
    \<and> distinct (fst (scanDirectory this forceRefresh now))
    \<and> sorted_wrt newerThan (fst (scanDirectory this forceRefresh now))
    \<and> sorted_wrt (\<lambda>a b. strLe b a \<and> a \<noteq> b) (fst (scanDirectory this forceRefresh now))"
proof -
  let ?cache = "foldl scanFile [] (children (vault this) p)"
  from assms(1) have st: "\<not> (\<not> forceRefresh \<and> now - lastScanTime this < 5000)" by auto
  have r: "scanDirectory this forceRefresh now
      = (sortDateStringsDesc (map fst ?cache), this\<lparr>cachedFileList := ?cache, lastScanTime := now\<rparr>)"
    by (simp add: scanDirectory_rescan [OF st] assms(2))
  have d: "distinct (map fst ?cache)" by (rule foldl_scanFile_distinct) simp
  have v: "list_all validDateString (map fst ?cache)" by (rule foldl_scanFile_valid)
  have n: "sorted_wrt newerThan (sortDateStringsDesc (map fst ?cache))"
    using v d by (rule sortDateStringsDesc_newest_first)
  have "sorted_wrt (\<lambda>a b. strLe b a \<and> a \<noteq> b) (sortDateStringsDesc (map fst ?cache))"
    using n by (rule sorted_wrt_mono_rel [rotated]) (rule newerThan_strLe)
  moreover have "set (sortDateStringsDesc (map fst ?cache))
      = {k. \<exists>g. TFile g \<in> set (children (vault this) p) \<and> extension g = ''md''
                \<and> isValidDailyNoteFilename (name g)
                \<and> k = replaceFirst NOTE_FILE_EXTENSION [] (name g)}"
    unfolding set_sortDateStringsDesc foldl_scanFile_keys_eq by simp
  moreover have "distinct (sortDateStringsDesc (map fst ?cache))"
    using d by (simp add: sortDateStringsDesc_def distinct_sortBy)
  ultimately show ?thesis
    using n by (simp add: r set_sortDateStringsDesc del: set_map)
qed

text \<open>When it lists and the configured path is not a folder, it returns the empty list
  and leaves the cache and the time of the last scan as they were.\<close>

lemma scanDirectory_no_folder:
  assumes "forceRefresh \<or> 5000 \<le> now - lastScanTime this"
    and "getAbstractFileByPath (vault this) (getDailyNotesPath this) \<noteq> Some (TFolder (getDailyNotesPath this))"
  shows "scanDirectory this forceRefresh now = ([], this)"
proof -
  from assms(1) have st: "\<not> (\<not> forceRefresh \<and> now - lastScanTime this < 5000)" by auto
  show ?thesis
  proof (cases "getAbstractFileByPath (vault this) (getDailyNotesPath this)")
    case None
    then show ?thesis by (simp add: scanDirectory_rescan [OF st])
  next
    case (Some a)
    show ?thesis
    proof (cases a)
      case (TFile f)
      with Some show ?thesis by (simp add: scanDirectory_rescan [OF st])
    next
      case (TFolder q)
      with Some assms(2) getAbstractFileByPath_TFolder [of "vault this" "getDailyNotesPath this" q]
      show ?thesis by simp
    qed
  qed
qed

text \<open>
  A page of \<^verbatim>\<open>loadNotes\<close> never has more than \<open>count\<close> records.  When every key
  of the cache is a valid date-string, the date-strings of the page are the first
  \<open>count\<close> entries, in order, of what the scan returned, restricted to those on or
  before the cursor's date-string.
\<close>

lemma loadNotes_page:
  "length (fst (loadNotes this opts today now)) \<le> count opts
   \<and> (cacheKeysValid this \<longrightarrow>
        map dateString (fst (loadNotes this opts today now))
          = take (count opts)
              (filter (\<lambda>ds. strLe ds (formatDateToFileName
                                        (case startDate opts of Some d \<Rightarrow> d | None \<Rightarrow> today)))
                 (fst (scanDirectory this False now))))"
proof -
  obtain ex this' where s: "scanDirectory this False now = (ex, this')"
    by (cases "scanDirectory this False now")
  let ?cur = "formatDateToFileName (case startDate opts of Some d \<Rightarrow> d | None \<Rightarrow> today)"
  let ?sel = "take (count opts) (filter (\<lambda>ds. strLe ds ?cur) ex)"
  have r: "fst (loadNotes this opts today now) = List.map_filter (loadNote this') ?sel"
    by (simp add: loadNotes_def s Let_def)
  have "length (List.map_filter (loadNote this') ?sel) \<le> length ?sel"
    by (rule length_map_filter)
  then have a: "length (fst (loadNotes this opts today now)) \<le> count opts"
    unfolding r by simp
  have b: "map dateString (fst (loadNotes this opts today now)) = ?sel" if "cacheKeysValid this"
  proof -
    have "cacheKeysValid this'"
      using scanDirectory_valid [OF that, of False now] s by simp
    moreover have "set ex \<subseteq> set (map fst (cachedFileList this'))"
      using scanDirectory_result_keys [of this False now] s by simp
    ultimately have "list_all validDateString ex"
      unfolding cacheKeysValid_iff list_all_iff by blast
    then have "list_all validDateString ?sel"
      unfolding list_all_iff by (auto dest: in_set_takeD)
    then show ?thesis unfolding r by (rule map_filter_loadNote)
  qed
  from a b show ?thesis by (simp add: s)
qed

text \<open>On date-strings that parse, the comparison of strings is the comparison of the
  days they denote, and the comparator of \<^verbatim>\<open>sortDateStringsDesc\<close> puts \<open>a\<close> before
  \<open>b\<close> exactly when \<open>b\<close> is not greater than \<open>a\<close> as a string.\<close>

lemma date_string_order:
  assumes "parseDateString a = Some da" "parseDateString b = Some db"
  shows "strLe a b = (\<not> dateLess db da)"
    and "(dateStringCompare a b \<le> 0) = strLe b a"
proof -
  show "strLe a b = (\<not> dateLess db da)"
    using assms by (rule string_order_is_date_order)
  show "(dateStringCompare a b \<le> 0) = strLe b a"
    using assms by (intro dateStringCompare_strLe) (simp_all add: validDateString_def)
qed

section \<open>The example vault, evaluated\<close>

lemma example_folder:
  "getAbstractFileByPath exampleVault ''daily-notes'' = Some (TFolder ''daily-notes'')"
  by code_simp

lemma example_children_cache:
  "foldl scanFile [] (children exampleVault ''daily-notes'')
     = [(''2026-01-10'', mkTFile ''daily-notes/2026-01-10.md''),
        (''2026-01-15'', mkTFile ''daily-notes/2026-01-15.md'')]"
  by code_simp

lemma example_sorted:
  "sortDateStringsDesc [''2026-01-10'', ''2026-01-15''] = [''2026-01-15'', ''2026-01-10'']"
  by code_simp

lemma example_scan:
  "scanDirectory (newManager exampleVault exampleSettings) True 10000
     = ([''2026-01-15'', ''2026-01-10''], exampleManager)"
  by (simp add: scanDirectory_def newManager_def exampleManager_def getDailyNotesPath_def
      exampleSettings_def example_folder example_children_cache example_sorted)

lemma example_cached_scan:
  "scanDirectory exampleManager False 11000 = ([''2026-01-10'', ''2026-01-15''], exampleManager)"
  by (simp add: scanDirectory_def exampleManager_def)

lemma example_load:
  "map dateString (fst (loadNotes exampleManager \<lparr>count = 1, startDate = Some exampleCursor, appendMode = False\<rparr> exampleCursor 11000)) = [''2026-01-10'']"
  by code_simp

lemma example_load2:
  "map dateString (fst (loadNotes exampleManager \<lparr>count = 2, startDate = Some exampleCursor, appendMode = False\<rparr> exampleCursor 11000)) = [''2026-01-10'', ''2026-01-15'']"
  by code_simp

lemma example_load_stale:
  "map dateString (fst (loadNotes exampleManager \<lparr>count = 1, startDate = Some exampleCursor, appendMode = False\<rparr> exampleCursor 20000)) = [''2026-01-15'']"
  by code_simp

lemma example_update:
  "scanDirectory (updateSettings exampleManager journalSettings) False 11000
    = ([], updateSettings exampleManager journalSettings)"
  by (simp add: scanDirectory_def exampleManager_def updateSettings_def)

lemma example_clear:
  "fst (scanDirectory (clearCache (updateSettings exampleManager journalSettings)) False 11000)
    = [''2026-02-01'']"
  by code_simp

lemma example_consistent: "vaultPathsConsistent exampleVault"
  by code_simp

section \<open>The claims about the date codec\<close>

text \<open>
  C4.  Round trip of the date codec: for every calendar date \<open>d\<close> whose year lies in
  1900 to 2100, parsing the filename generated from \<open>d\<close> succeeds and gives back the
  same year, month and day.
\<close>

theorem C4_parse_generateFilename:
  assumes "isCalendarDate d" "1900 \<le> getFullYear d" "getFullYear d \<le> 2100"
  shows "parseDateFromFilename (generateFilename d) = Some d"
  using assms by (rule parse_generateFilename_roundtrip)

theorem C4_parse_generateFilename_witness:
  "isCalendarDate \<lparr>getFullYear = 2024, getMonth = 1, getDate = 29\<rparr>
   \<and> generateFilename \<lparr>getFullYear = 2024, getMonth = 1, getDate = 29\<rparr> = ''2024-02-29.md''
   \<and> parseDateFromFilename ''2024-02-29.md''
       = Some \<lparr>getFullYear = 2024, getMonth = 1, getDate = 29\<rparr>"
proof -
  let ?d = "\<lparr>getFullYear = 2024, getMonth = 1, getDate = 29\<rparr>"
  have h: "isCalendarDate ?d"
    by (simp add: isCalendarDate_def daysInMonth_def isLeapYear_def)
  have g: "generateFilename ?d = ''2024-02-29.md''"
    by code_simp
  have "parseDateFromFilename (generateFilename ?d) = Some ?d"
    using h by (rule C4_parse_generateFilename) simp_all
  with h g show ?thesis by simp
qed

text \<open>
  C5.  Parsing succeeds only on canonical strings.  If \<^verbatim>\<open>parseDateFromFilename\<close>
  accepts \<open>s\<close> then \<open>s\<close> matches the zero-padded pattern with the extension, the year
  is in 1900 to 2100, the result is a day of the calendar, and \<open>s\<close> is exactly the
  filename generated from it.  If \<^verbatim>\<open>parseDateString\<close> accepts \<open>s\<close> then the same
  holds for the pattern without the extension.  \<^verbatim>\<open>isValidDailyNoteFilename\<close>
  accepts only what \<^verbatim>\<open>parseDateFromFilename\<close> accepts.  The strings
  \<^verbatim>\<open>2026-02-30\<close>, \<^verbatim>\<open>2026-13-01\<close> and \<^verbatim>\<open>2026-00-10\<close> are rejected, with and
  without the extension.
\<close>

theorem C5_parse_only_canonical:
  "(\<forall>s d. parseDateFromFilename s = Some d \<longrightarrow>
      regexTest DAILY_NOTE_FILENAME_REGEX s \<and> 1900 \<le> getFullYear d \<and> getFullYear d \<le> 2100
      \<and> isCalendarDate d \<and> generateFilename d = s)
   \<and> (\<forall>s d. parseDateString s = Some d \<longrightarrow>
      regexTest DATE_STRING_ATOMS s \<and> 1900 \<le> getFullYear d \<and> getFullYear d \<le> 2100
      \<and> isCalendarDate d \<and> formatDateToFileName d = s)
   \<and> (\<forall>s. isValidDailyNoteFilename s \<longrightarrow> (\<exists>d. parseDateFromFilename s = Some d))
   \<and> parseDateString ''2026-02-30'' = None \<and> parseDateString ''2026-13-01'' = None
   \<and> parseDateString ''2026-00-10'' = None
   \<and> parseDateFromFilename ''2026-02-30.md'' = None
   \<and> parseDateFromFilename ''2026-13-01.md'' = None
   \<and> parseDateFromFilename ''2026-00-10.md'' = None
   \<and> parseDateFromFilename ''2026-02-30'' = None
   \<and> parseDateFromFilename ''2026-13-01'' = None
   \<and> parseDateFromFilename ''2026-00-10'' = None"
proof -
  have a: "\<forall>s d. parseDateFromFilename s = Some d \<longrightarrow>
      regexTest DAILY_NOTE_FILENAME_REGEX s \<and> 1900 \<le> getFullYear d \<and> getFullYear d \<le> 2100
      \<and> isCalendarDate d \<and> generateFilename d = s"
    using parseDateFromFilename_Some by blast
  have b: "\<forall>s d. parseDateString s = Some d \<longrightarrow>
      regexTest DATE_STRING_ATOMS s \<and> 1900 \<le> getFullYear d \<and> getFullYear d \<le> 2100
      \<and> isCalendarDate d \<and> formatDateToFileName d = s"
  proof (intro allI impI)
    fix s d
    assume "parseDateString s = Some d"
    then have p: "parseDateFromFilename (s @ ''.md'') = Some d"
      by (simp add: parseDateString_def NOTE_FILE_EXTENSION_def)
    note q = parseDateFromFilename_Some [OF p]
    from q have "matchAtoms DATE_STRING_ATOMS s" by (simp add: regexTest_filename)
    moreover from q have "formatDateToFileName d = s"
      by (simp add: generateFilename_def NOTE_FILE_EXTENSION_def)
    ultimately show "regexTest DATE_STRING_ATOMS s \<and> 1900 \<le> getFullYear d
        \<and> getFullYear d \<le> 2100 \<and> isCalendarDate d \<and> formatDateToFileName d = s"
      using q by (simp add: regexTest_def)
  qed
  have c: "\<forall>s. isValidDailyNoteFilename s \<longrightarrow> (\<exists>d. parseDateFromFilename s = Some d)"
    by (auto simp: isValidDailyNoteFilename_def split: if_splits)
  have e1: "parseDateString ''2026-02-30'' = None" by code_simp
  have e2: "parseDateString ''2026-13-01'' = None" by code_simp
  have e3: "parseDateString ''2026-00-10'' = None" by code_simp
  have e4: "parseDateFromFilename ''2026-02-30.md'' = None" by code_simp
  have e5: "parseDateFromFilename ''2026-13-01.md'' = None" by code_simp
  have e6: "parseDateFromFilename ''2026-00-10.md'' = None" by code_simp
  have e7: "parseDateFromFilename ''2026-02-30'' = None" by code_simp
  have e8: "parseDateFromFilename ''2026-13-01'' = None" by code_simp
  have e9: "parseDateFromFilename ''2026-00-10'' = None" by code_simp
  show ?thesis
    using a b c e1 e2 e3 e4 e5 e6 e7 e8 e9 by (intro conjI)
qed

theorem C5_parse_only_canonical_witness:
  "parseDateFromFilename ''2026-01-15.md''
     = Some \<lparr>getFullYear = 2026, getMonth = 0, getDate = 15\<rparr>
   \<and> regexTest DAILY_NOTE_FILENAME_REGEX ''2026-01-15.md''
   \<and> isCalendarDate \<lparr>getFullYear = 2026, getMonth = 0, getDate = 15\<rparr>
   \<and> generateFilename \<lparr>getFullYear = 2026, getMonth = 0, getDate = 15\<rparr> = ''2026-01-15.md''
   \<and> parseDateString ''2026-01-15'' = Some \<lparr>getFullYear = 2026, getMonth = 0, getDate = 15\<rparr>
   \<and> regexTest DATE_STRING_ATOMS ''2026-01-15''
   \<and> formatDateToFileName \<lparr>getFullYear = 2026, getMonth = 0, getDate = 15\<rparr> = ''2026-01-15''
   \<and> isValidDailyNoteFilename ''2026-01-15.md''"
proof -
  have e: "parseDateFromFilename ''2026-01-15.md''
             = Some \<lparr>getFullYear = 2026, getMonth = 0, getDate = 15\<rparr>"
    by code_simp
  have f: "parseDateString ''2026-01-15'' = Some \<lparr>getFullYear = 2026, getMonth = 0, getDate = 15\<rparr>"
    by code_simp
  have v: "isValidDailyNoteFilename ''2026-01-15.md''"
    by code_simp
  show ?thesis
    using C5_parse_only_canonical e f v by blast
qed

section \<open>The claims about the note manager\<close>

text \<open>
  C1.  The claim: \<^verbatim>\<open>loadNotes\<close> returns the first \<open>count\<close> known date-strings on or
  before the cursor, newest first.  The manager below has just scanned a folder that
  lists the note of 10 January before the note of 15 January.  One second later,
  within the freshness window, \<^verbatim>\<open>loadNotes\<close> with a cursor of 20 January returns
  for \<open>count = 1\<close> the note of 10 January, not the newest one, and for \<open>count = 2\<close>
  the two notes oldest first: the scan it relies on hands out the cached keys in
  insertion order.  Once the window has passed, the same call returns the note of
  15 January.
\<close>

theorem C1_loadNotes_cached_order:
  "map dateString (fst (loadNotes (snd (scanDirectory (newManager exampleVault exampleSettings) True 10000))
      \<lparr>count = 1, startDate = Some exampleCursor, appendMode = False\<rparr> exampleCursor 11000))
     = [''2026-01-10'']
   \<and> map dateString (fst (loadNotes (snd (scanDirectory (newManager exampleVault exampleSettings) True 10000))
      \<lparr>count = 2, startDate = Some exampleCursor, appendMode = False\<rparr> exampleCursor 11000))
     = [''2026-01-10'', ''2026-01-15'']
   \<and> map dateString (fst (loadNotes (snd (scanDirectory (newManager exampleVault exampleSettings) True 10000))
      \<lparr>count = 1, startDate = Some exampleCursor, appendMode = False\<rparr> exampleCursor 20000))
     = [''2026-01-15'']"
  unfolding example_scan snd_conv
  by (intro conjI example_load example_load2 example_load_stale)

text \<open>
  C2.  The claim: within the freshness window \<^verbatim>\<open>scanDirectory(false)\<close> returns the
  cached keys sorted newest first.  A forced scan of the example vault at time 10000
  returns the two date-strings newest first and leaves the example manager; a scan
  that is not forced, one second later, returns the same keys oldest first, in the
  order in which the folder listed them.
\<close>

theorem C2_scanDirectory_cached_order:
  "scanDirectory (newManager exampleVault exampleSettings) True 10000
     = ([''2026-01-15'', ''2026-01-10''], exampleManager)
   \<and> scanDirectory exampleManager False 11000
     = ([''2026-01-10'', ''2026-01-15''], exampleManager)"
  by (simp add: example_scan example_cached_scan)

text \<open>
  C3, as the code has it.  \<^verbatim>\<open>createNote\<close>, \<^verbatim>\<open>saveNote\<close> and \<^verbatim>\<open>refreshFile\<close> file
  a handle under whatever string they are given, and \<^verbatim>\<open>getOrCreateTodayNote\<close> under
  today's date-string, without validating it.  So: starting from the empty cache,
  after every sequence of operations in which each of these strings passes
  date-string validation, every key of the cache passes date-string validation.
\<close>

theorem C3_cache_keys_valid:
  assumes "validKeyOps ops"
  shows "cacheKeysValid (run (newManager v st) ops)"
  using assms by (intro run_valid) (simp add: cacheKeysValid_def newManager_def)

theorem C3_cache_keys_valid_witness:
  "validKeyOps [ScanDirectory True 10000, CreateNote ''2026-01-20'' ''hello'',
      SaveNote ''2026-01-21'' ''bye'', DeleteNote ''2026-01-10'',
      GetOrCreateTodayNote exampleCursor 10001 10002, RefreshFile ''2026-01-15'']
   \<and> cacheKeysValid (run (newManager exampleVault exampleSettings)
     [ScanDirectory True 10000, CreateNote ''2026-01-20'' ''hello'',
      SaveNote ''2026-01-21'' ''bye'', DeleteNote ''2026-01-10'',
      GetOrCreateTodayNote exampleCursor 10001 10002, RefreshFile ''2026-01-15''])"
proof -
  have "validKeyOps [ScanDirectory True 10000, CreateNote ''2026-01-20'' ''hello'',
      SaveNote ''2026-01-21'' ''bye'', DeleteNote ''2026-01-10'',
      GetOrCreateTodayNote exampleCursor 10001 10002, RefreshFile ''2026-01-15'']"
    by code_simp
  then show ?thesis
    using C3_cache_keys_valid by blast
qed

text \<open>
  The claim C3 as stated fails: from the empty cache, \<^verbatim>\<open>createNote("foo", "")\<close>
  leaves the key \<^verbatim>\<open>foo\<close> in the cache, and \<^verbatim>\<open>foo\<close> does not pass date-string
  validation.
\<close>

theorem C3_cache_keys_valid_counterexample:
  "map fst (cachedFileList (run (newManager emptyVault exampleSettings) [CreateNote ''foo'' '''']))
     = [''foo'']
   \<and> \<not> validDateString ''foo''
   \<and> \<not> cacheKeysValid (run (newManager emptyVault exampleSettings) [CreateNote ''foo'' ''''])"
  by code_simp

text \<open>
  C6.  \<^verbatim>\<open>saveNote\<close>, case by case.  With no cached handle it is \<^verbatim>\<open>createNote\<close>.
  With a cached handle whose path is no longer in the vault it is \<^verbatim>\<open>createNote\<close>
  on the manager without the stale entry.  Otherwise, when the write completes, it
  returns the cached handle, leaves the cache as it was, and the vault has the same
  files and folders with only the content at the handle's path replaced; the write
  completes whenever the target is a file and the vault does not fault.  When the
  write throws, the result is the failure and nothing has changed.
\<close>

theorem C6_saveNote:
  "(map_of (cachedFileList this) ds = None \<longrightarrow> saveNote this ds c = createNote this ds c)
   \<and> (\<forall>f. map_of (cachedFileList this) ds = Some f
            \<and> getAbstractFileByPath (vault this) (path f) = None \<longrightarrow>
          saveNote this ds c
            = createNote (this\<lparr>cachedFileList := AList.delete ds (cachedFileList this)\<rparr>) ds c
          \<and> map_of (AList.delete ds (cachedFileList this)) ds = None)
   \<and> (\<forall>f a v. map_of (cachedFileList this) ds = Some f
            \<and> getAbstractFileByPath (vault this) (path f) = Some a
            \<and> vault_modify (vault this) f c = Inr v \<longrightarrow>
          saveNote this ds c = (Success (Some f), this\<lparr>vault := v\<rparr>)
          \<and> (\<forall>p. fileContent v p = (if p = path f then Some c else fileContent (vault this) p))
          \<and> map fst (files v) = map fst (files (vault this))
          \<and> folders v = folders (vault this))
   \<and> (\<forall>f a e. map_of (cachedFileList this) ds = Some f
            \<and> getAbstractFileByPath (vault this) (path f) = Some a
            \<and> vault_modify (vault this) f c = Inl e \<longrightarrow>
          saveNote this ds c = (Failure e, this))
   \<and> (\<forall>(f::tfile) g. fault (vault this) (OpModify (path f)) = None
            \<and> getAbstractFileByPath (vault this) (path f) = Some (TFile g) \<longrightarrow>
          (\<exists>v. vault_modify (vault this) f c = Inr v))"
proof (intro conjI allI impI)
  assume "map_of (cachedFileList this) ds = None"
  then show "saveNote this ds c = createNote this ds c"
    by (simp add: saveNote_def)
next
  fix f
  assume "map_of (cachedFileList this) ds = Some f
          \<and> getAbstractFileByPath (vault this) (path f) = None"
  then show "saveNote this ds c
      = createNote (this\<lparr>cachedFileList := AList.delete ds (cachedFileList this)\<rparr>) ds c"
    by (simp add: saveNote_def)
next
  fix f
  show "map_of (AList.delete ds (cachedFileList this)) ds = None"
    by (rule map_of_delete_key)
next
  fix f a v
  assume h: "map_of (cachedFileList this) ds = Some f
          \<and> getAbstractFileByPath (vault this) (path f) = Some a
          \<and> vault_modify (vault this) f c = Inr v"
  then show "saveNote this ds c = (Success (Some f), this\<lparr>vault := v\<rparr>)"
    by (simp add: saveNote_def)
  from h have m: "vault_modify (vault this) f c = Inr v" by simp
  show "fileContent v p = (if p = path f then Some c else fileContent (vault this) p)" for p
    by (rule vault_modify_Inr(1) [OF m])
  show "map fst (files v) = map fst (files (vault this))"
    by (rule vault_modify_Inr(2) [OF m])
  show "folders v = folders (vault this)"
    by (rule vault_modify_Inr(3) [OF m])
next
  fix f a e
  assume "map_of (cachedFileList this) ds = Some f
          \<and> getAbstractFileByPath (vault this) (path f) = Some a
          \<and> vault_modify (vault this) f c = Inl e"
  then show "saveNote this ds c = (Failure e, this)"
    by (simp add: saveNote_def)
next
  fix f :: tfile and g
  assume h: "fault (vault this) (OpModify (path f)) = None
          \<and> getAbstractFileByPath (vault this) (path f) = Some (TFile g)"
  then have "fileContent (vault this) (path f) \<noteq> None"
    using getAbstractFileByPath_TFile [of "vault this" "path f"] by blast
  with h show "\<exists>v. vault_modify (vault this) f c = Inr v"
    by (simp add: vault_modify_succeeds)
qed

theorem C6_saveNote_witness:
  "saveNote (newManager exampleVault exampleSettings) ''2026-01-20'' ''hello''
     = createNote (newManager exampleVault exampleSettings) ''2026-01-20'' ''hello''
   \<and> saveNote staleManager ''2026-01-20'' ''hello''
     = createNote exampleManager ''2026-01-20'' ''hello''
   \<and> fst (saveNote exampleManager ''2026-01-15'' ''hello'')
     = Success (Some (mkTFile ''daily-notes/2026-01-15.md''))
   \<and> cachedFileList (snd (saveNote exampleManager ''2026-01-15'' ''hello''))
     = cachedFileList exampleManager
   \<and> fileContent (vault (snd (saveNote exampleManager ''2026-01-15'' ''hello'')))
        ''daily-notes/2026-01-15.md'' = Some ''hello''
   \<and> fileContent (vault (snd (saveNote exampleManager ''2026-01-15'' ''hello'')))
        ''daily-notes/2026-01-10.md'' = Some ''ten''"
proof -
  let ?n = "newManager exampleVault exampleSettings"
  let ?f = "mkTFile ''daily-notes/2026-01-15.md''"
  let ?g = "mkTFile ''daily-notes/2026-01-20.md''"
  have a: "map_of (cachedFileList ?n) ''2026-01-20'' = None"
    by (simp add: newManager_def)
  have b1: "map_of (cachedFileList staleManager) ''2026-01-20'' = Some ?g"
    by (simp add: staleManager_def exampleManager_def)
  have b2: "getAbstractFileByPath (vault staleManager) (path ?g) = None"
    by (simp add: staleManager_def exampleManager_def exampleVault_def
        getAbstractFileByPath_def path_mkTFile)
  have b3: "staleManager\<lparr>cachedFileList := AList.delete ''2026-01-20'' (cachedFileList staleManager)\<rparr>
            = exampleManager"
    by (simp add: staleManager_def exampleManager_def)
  have c1: "map_of (cachedFileList exampleManager) ''2026-01-15'' = Some ?f"
    by (simp add: exampleManager_def)
  have c2: "getAbstractFileByPath (vault exampleManager) (path ?f) = Some (TFile ?f)"
    by (simp add: exampleManager_def exampleVault_def getAbstractFileByPath_def path_mkTFile)
  have c3: "fault (vault exampleManager) (OpModify (path ?f)) = None"
    by (simp add: exampleManager_def exampleVault_def noFault_def)
  note t = C6_saveNote [of ?n "''2026-01-20''" "''hello''"]
  note u = C6_saveNote [of staleManager "''2026-01-20''" "''hello''"]
  note w = C6_saveNote [of exampleManager "''2026-01-15''" "''hello''"]
  from w c2 c3 obtain v where v: "vault_modify (vault exampleManager) ?f ''hello'' = Inr v"
    by blast
  from w c1 c2 v have r: "saveNote exampleManager ''2026-01-15'' ''hello''
        = (Success (Some ?f), exampleManager\<lparr>vault := v\<rparr>)"
    and fc: "\<And>p. fileContent v p
        = (if p = path ?f then Some ''hello'' else fileContent (vault exampleManager) p)"
    by blast+
  have ten: "fileContent (vault exampleManager) ''daily-notes/2026-01-10.md'' = Some ''ten''"
    by (simp add: exampleManager_def exampleVault_def fileContent_def path_mkTFile)
  from t a have "saveNote ?n ''2026-01-20'' ''hello'' = createNote ?n ''2026-01-20'' ''hello''"
    by blast
  moreover from u b1 b2 have "saveNote staleManager ''2026-01-20'' ''hello''
      = createNote exampleManager ''2026-01-20'' ''hello''"
    by (simp add: b3)
  ultimately show ?thesis
    using r fc ten by (simp add: path_mkTFile)
qed

text \<open>
  C7.  \<^verbatim>\<open>deleteNote\<close> with no cached handle returns the failure
  \<^verbatim>\<open>File not found\<close> and changes nothing.  With a cached handle whose file the
  vault deletes, it succeeds, the file is gone from the vault, the cache has no entry
  for the date-string, the scan time is untouched, and \<^verbatim>\<open>noteExists\<close> within the
  freshness window answers false from the cache, leaving the manager as it is (no
  directory listing).  When the window has passed, \<^verbatim>\<open>noteExists\<close> lists the
  directory and still answers false, provided the cached handle was the file at the
  note's path and every file of the vault lies at its folder's path followed by its
  name.  The vault deletes a file that exists whenever it does not fault.
\<close>

theorem C7_deleteNote:
  "(map_of (cachedFileList this) ds = None \<longrightarrow>
      deleteNote this ds = (Failure ''File not found'', this))
   \<and> (\<forall>f v. map_of (cachedFileList this) ds = Some f \<and> vault_delete (vault this) f = Inr v \<longrightarrow>
        deleteNote this ds
          = (Success None,
             this\<lparr>vault := v, cachedFileList := AList.delete ds (cachedFileList this)\<rparr>)
        \<and> fileContent v (path f) = None
        \<and> getAbstractFileByPath v (path f) \<noteq> Some (TFile f)
        \<and> map_of (cachedFileList (snd (deleteNote this ds))) ds = None
        \<and> lastScanTime (snd (deleteNote this ds)) = lastScanTime this
        \<and> (\<forall>now. now - lastScanTime this < 5000 \<longrightarrow>
              noteExists (snd (deleteNote this ds)) ds now = (False, snd (deleteNote this ds))))
   \<and> (\<forall>f v now. map_of (cachedFileList this) ds = Some f \<and> vault_delete (vault this) f = Inr v
            \<and> path f = getNotePath this ds \<and> vaultPathsConsistent (vault this) \<longrightarrow>
          fst (noteExists (snd (deleteNote this ds)) ds now) = False)
   \<and> (\<forall>f::tfile. fault (vault this) (OpDelete (path f)) = None
            \<and> fileContent (vault this) (path f) \<noteq> None \<longrightarrow>
          (\<exists>v. vault_delete (vault this) f = Inr v))"
proof (intro conjI allI impI)
  assume "map_of (cachedFileList this) ds = None"
  then show "deleteNote this ds = (Failure ''File not found'', this)"
    by (simp add: deleteNote_def)
next
  fix f v
  assume h: "map_of (cachedFileList this) ds = Some f \<and> vault_delete (vault this) f = Inr v"
  then have d: "vault_delete (vault this) f = Inr v" by simp
  show r: "deleteNote this ds
      = (Success None, this\<lparr>vault := v, cachedFileList := AList.delete ds (cachedFileList this)\<rparr>)"
    using h by (simp add: deleteNote_def)
  show gone: "fileContent v (path f) = None"
    using vault_delete_Inr(1) [OF d, of "path f"] by simp
  show "getAbstractFileByPath v (path f) \<noteq> Some (TFile f)"
    using gone getAbstractFileByPath_TFile [of v "path f"] by auto
  show "map_of (cachedFileList (snd (deleteNote this ds))) ds = None"
    by (simp add: r map_of_delete_key)
  show "lastScanTime (snd (deleteNote this ds)) = lastScanTime this"
    by (simp add: r)
  fix now :: int
  assume "now - lastScanTime this < 5000"
  then have "scanDirectory (snd (deleteNote this ds)) False now
      = (map fst (AList.delete ds (cachedFileList this)), snd (deleteNote this ds))"
    by (simp add: r scanDirectory_fresh)
  moreover have "ds \<notin> fst ` set (AList.delete ds (cachedFileList this))"
    by (rule delete_notin_dom)
  ultimately show "noteExists (snd (deleteNote this ds)) ds now = (False, snd (deleteNote this ds))"
    by (simp add: noteExists_def includes_str_def)
next
  fix f v and now :: int
  assume "map_of (cachedFileList this) ds = Some f \<and> vault_delete (vault this) f = Inr v
          \<and> path f = getNotePath this ds \<and> vaultPathsConsistent (vault this)"
  then show "fst (noteExists (snd (deleteNote this ds)) ds now) = False"
    by (simp add: noteExists_after_delete)
next
  fix f :: tfile
  assume "fault (vault this) (OpDelete (path f)) = None \<and> fileContent (vault this) (path f) \<noteq> None"
  then show "\<exists>v. vault_delete (vault this) f = Inr v"
    by (simp add: vault_delete_succeeds)
qed

theorem C7_deleteNote_witness:
  "deleteNote exampleManager ''2026-01-20'' = (Failure ''File not found'', exampleManager)
   \<and> fst (deleteNote exampleManager ''2026-01-15'') = Success None
   \<and> fileContent (vault (snd (deleteNote exampleManager ''2026-01-15'')))
        ''daily-notes/2026-01-15.md'' = None
   \<and> map fst (cachedFileList (snd (deleteNote exampleManager ''2026-01-15''))) = [''2026-01-10'']
   \<and> fst (noteExists (snd (deleteNote exampleManager ''2026-01-15'')) ''2026-01-15'' 10001) = False
   \<and> fst (noteExists (snd (deleteNote exampleManager ''2026-01-15'')) ''2026-01-15'' 99999) = False"
proof -
  let ?f = "mkTFile ''daily-notes/2026-01-15.md''"
  have a: "map_of (cachedFileList exampleManager) ''2026-01-20'' = None"
    by (simp add: exampleManager_def)
  have b: "map_of (cachedFileList exampleManager) ''2026-01-15'' = Some ?f"
    by (simp add: exampleManager_def)
  have c: "fault (vault exampleManager) (OpDelete (path ?f)) = None
      \<and> fileContent (vault exampleManager) (path ?f) \<noteq> None"
    by (simp add: exampleManager_def exampleVault_def noFault_def fileContent_def path_mkTFile)
  have w: "(10001::int) - lastScanTime exampleManager < 5000"
    by (simp add: exampleManager_def)
  have pf: "path ?f = getNotePath exampleManager ''2026-01-15''"
    by (simp add: path_mkTFile getNotePath_def exampleManager_def exampleSettings_def
        NOTE_FILE_EXTENSION_def)
  have vc: "vaultPathsConsistent (vault exampleManager)"
    using example_consistent by (simp add: exampleManager_def)
  note t = C7_deleteNote [of exampleManager "''2026-01-20''"]
  note u = C7_deleteNote [of exampleManager "''2026-01-15''"]
  from u c obtain v where v: "vault_delete (vault exampleManager) ?f = Inr v" by blast
  from u b v have r: "deleteNote exampleManager ''2026-01-15''
      = (Success None, exampleManager\<lparr>vault := v,
           cachedFileList := AList.delete ''2026-01-15'' (cachedFileList exampleManager)\<rparr>)"
    and g: "fileContent v (path ?f) = None"
    and n: "\<forall>now. now - lastScanTime exampleManager < 5000 \<longrightarrow>
        noteExists (snd (deleteNote exampleManager ''2026-01-15'')) ''2026-01-15'' now
          = (False, snd (deleteNote exampleManager ''2026-01-15''))"
    by blast+
  from u b v pf vc have late:
    "fst (noteExists (snd (deleteNote exampleManager ''2026-01-15'')) ''2026-01-15'' 99999) = False"
    by blast
  have k: "map fst (AList.delete ''2026-01-15'' (cachedFileList exampleManager)) = [''2026-01-10'']"
    by (simp add: exampleManager_def)
  from t a have "deleteNote exampleManager ''2026-01-20'' = (Failure ''File not found'', exampleManager)"
    by blast
  moreover from n w have "fst (noteExists (snd (deleteNote exampleManager ''2026-01-15'')) ''2026-01-15'' 10001) = False"
    by simp
  ultimately show ?thesis
    using g k late by (simp add: r path_mkTFile)
qed

text \<open>
  C8.  The claim: a change of the storage directory clears the cache and resets the
  freshness timer, so that the next scan lists the new directory.
  \<^verbatim>\<open>updateSettings\<close>, which the plugin calls when the settings change, empties the
  cache but keeps the time of the last scan.  After the example manager (last scan
  at time 10000) is pointed at the folder \<^verbatim>\<open>journal\<close>, a scan at time 11000 returns
  the empty list without listing it, although it holds a note; after
  \<^verbatim>\<open>clearCache\<close>, which does reset the timer, the same scan finds the note.
\<close>

theorem C8_updateSettings_keeps_timer:
  "lastScanTime (updateSettings this st) = lastScanTime this
   \<and> cachedFileList (updateSettings this st) = []
   \<and> lastScanTime (clearCache this) = 0
   \<and> scanDirectory (updateSettings exampleManager journalSettings) False 11000
       = ([], updateSettings exampleManager journalSettings)
   \<and> fst (scanDirectory (clearCache (updateSettings exampleManager journalSettings)) False 11000)
       = [''2026-02-01'']"
  using example_update example_clear by (simp add: updateSettings_def clearCache_def)

text \<open>
  C9.  When the vault fails to delete the file of a cached handle, \<^verbatim>\<open>deleteNote\<close>
  returns the failure with the error's text and the manager, its cache included, is
  unchanged.  The vault fails whenever its fault table says so.
\<close>

theorem C9_deleteNote_failure:
  "(\<forall>f e. map_of (cachedFileList this) ds = Some f \<and> vault_delete (vault this) f = Inl e \<longrightarrow>
      deleteNote this ds = (Failure e, this))
   \<and> (\<forall>(f::tfile) e. fault (vault this) (OpDelete (path f)) = Some e \<longrightarrow>
        vault_delete (vault this) f = Inl e)"
proof (intro conjI allI impI)
  fix f e
  assume "map_of (cachedFileList this) ds = Some f \<and> vault_delete (vault this) f = Inl e"
  then show "deleteNote this ds = (Failure e, this)"
    by (simp add: deleteNote_def)
next
  fix f :: tfile and e
  assume "fault (vault this) (OpDelete (path f)) = Some e"
  then show "vault_delete (vault this) f = Inl e"
    by (simp add: vault_delete_def)
qed

theorem C9_deleteNote_failure_witness:
  "map_of (cachedFileList brokenManager) ''2026-01-15'' = Some (mkTFile ''daily-notes/2026-01-15.md'')
   \<and> deleteNote brokenManager ''2026-01-15''
       = (Failure ''Error: EPERM: operation not permitted, unlink'', brokenManager)
   \<and> map_of (cachedFileList (snd (deleteNote brokenManager ''2026-01-15''))) ''2026-01-15''
       = Some (mkTFile ''daily-notes/2026-01-15.md'')"
proof -
  let ?f = "mkTFile ''daily-notes/2026-01-15.md''"
  have b: "map_of (cachedFileList brokenManager) ''2026-01-15'' = Some ?f"
    by (simp add: brokenManager_def exampleManager_def)
  have c: "fault (vault brokenManager) (OpDelete (path ?f))
      = Some ''Error: EPERM: operation not permitted, unlink''"
    by (simp add: brokenManager_def brokenVault_def brokenFault_def path_mkTFile)
  note t = C9_deleteNote_failure [of brokenManager "''2026-01-15''"]
  from t c have "vault_delete (vault brokenManager) ?f
      = Inl ''Error: EPERM: operation not permitted, unlink''"
    by blast
  with t b have "deleteNote brokenManager ''2026-01-15''
      = (Failure ''Error: EPERM: operation not permitted, unlink'', brokenManager)"
    by blast
  with b show ?thesis by simp
qed

text \<open>
  C10.  \<^verbatim>\<open>readNote\<close> returns \<^verbatim>\<open>null\<close> when no handle is cached and when the
  vault fails to read the cached handle's file; it returns the content when the read
  succeeds.  So \<^verbatim>\<open>null\<close> does not tell a failed read from an absent note.
\<close>

theorem C10_readNote_null:
  "(map_of (cachedFileList this) ds = None \<longrightarrow> readNote this ds = None)
   \<and> (\<forall>f e. map_of (cachedFileList this) ds = Some f \<and> vault_read (vault this) f = Inl e \<longrightarrow>
        readNote this ds = None)
   \<and> (\<forall>f t. map_of (cachedFileList this) ds = Some f \<and> vault_read (vault this) f = Inr t \<longrightarrow>
        readNote this ds = Some t)
   \<and> (\<forall>(f::tfile) e. fault (vault this) (OpRead (path f)) = Some e \<longrightarrow>
        vault_read (vault this) f = Inl e)"
proof (intro conjI allI impI)
  assume "map_of (cachedFileList this) ds = None"
  then show "readNote this ds = None"
    by (simp add: readNote_def)
next
  fix f e
  assume "map_of (cachedFileList this) ds = Some f \<and> vault_read (vault this) f = Inl e"
  then show "readNote this ds = None"
    by (simp add: readNote_def)
next
  fix f t
  assume "map_of (cachedFileList this) ds = Some f \<and> vault_read (vault this) f = Inr t"
  then show "readNote this ds = Some t"
    by (simp add: readNote_def)
next
  fix f :: tfile and e
  assume "fault (vault this) (OpRead (path f)) = Some e"
  then show "vault_read (vault this) f = Inl e"
    by (simp add: vault_read_def)
qed

theorem C10_readNote_null_witness:
  "map_of (cachedFileList brokenManager) ''2026-01-20'' = None
   \<and> readNote brokenManager ''2026-01-20'' = None
   \<and> map_of (cachedFileList brokenManager) ''2026-01-15'' = Some (mkTFile ''daily-notes/2026-01-15.md'')
   \<and> vault_read (vault brokenManager) (mkTFile ''daily-notes/2026-01-15.md'')
       = Inl ''Error: EIO: i/o error, read''
   \<and> readNote brokenManager ''2026-01-15'' = None
   \<and> readNote brokenManager ''2026-01-10'' = Some ''ten''"
proof -
  let ?f = "mkTFile ''daily-notes/2026-01-15.md''"
  let ?g = "mkTFile ''daily-notes/2026-01-10.md''"
  have a: "map_of (cachedFileList brokenManager) ''2026-01-20'' = None"
    by (simp add: brokenManager_def exampleManager_def)
  have b: "map_of (cachedFileList brokenManager) ''2026-01-15'' = Some ?f"
    by (simp add: brokenManager_def exampleManager_def)
  have c: "fault (vault brokenManager) (OpRead (path ?f)) = Some ''Error: EIO: i/o error, read''"
    by (simp add: brokenManager_def brokenVault_def brokenFault_def path_mkTFile)
  have d: "map_of (cachedFileList brokenManager) ''2026-01-10'' = Some ?g"
    by (simp add: brokenManager_def exampleManager_def)
  have e: "vault_read (vault brokenManager) ?g = Inr ''ten''"
    by (simp add: brokenManager_def brokenVault_def brokenFault_def exampleVault_def
        vault_read_def fileContent_def path_mkTFile)
  note t = C10_readNote_null [of brokenManager "''2026-01-20''"]
  note u = C10_readNote_null [of brokenManager "''2026-01-15''"]
  note w = C10_readNote_null [of brokenManager "''2026-01-10''"]
  from u c have r: "vault_read (vault brokenManager) ?f = Inl ''Error: EIO: i/o error, read''"
    by blast
  from t a have "readNote brokenManager ''2026-01-20'' = None" by blast
  moreover from u b r have "readNote brokenManager ''2026-01-15'' = None" by blast
  moreover from w d e have "readNote brokenManager ''2026-01-10'' = Some ''ten''" by blast
  ultimately show ?thesis using a b r by simp
qed

end
